theory Spec2Isabelle
  imports Main "HOL-Library.Char_ord" "HOL-Library.List_Lexorder" "HOL-Library.Multiset"
begin

section \<open>The rule engine of klaudiush: patterns, matchers, registry, evaluator\<close>

text \<open>
  A shallow embedding of the Go package \<open>internal/rules\<close>: \<open>pattern.go\<close> (pattern
  detection, compilation and the pattern cache), \<open>matcher.go\<close> (leaf and composite
  matchers, the matcher builder), \<open>registry.go\<close> (the sorted rule registry) and
  \<open>evaluator.go\<close> (rule evaluation). In the source tree the matchers are the second part
  of \<open>internal/crashdump/types.go\<close> and the registry is the second part of
  \<open>internal/rules/evaluator.go\<close>.

  Go pointers that the code tests against \<open>nil\<close> are \<open>option\<close> values. A nil-pointer
  dereference is a run-time panic; functions that can reach one return \<open>panic + 'a\<close>.
  Go \<open>error\<close> values are their messages. Mutation of the registry and of the pattern
  cache is explicit state passing. Locks are not modelled: every operation is one atomic
  step.
\<close>

subsection \<open>External libraries\<close>

type_synonym error = string

text \<open>
  The pattern engines (\<open>github.com/gobwas/glob\<close> and Go's \<open>regexp\<close>) and
  \<open>strings.EqualFold\<close> are outside the repository. They are deterministic functions of
  their arguments and are taken as parameters: \<open>glob_Compile p\<close> is the error of
  \<open>glob.Compile(p, '/')\<close> (\<open>None\<close> when the pattern compiles), \<open>glob_Match p s\<close> is the
  result of matching \<open>s\<close> against the compiled \<open>p\<close>; likewise for \<open>regexp\<close>.
\<close>

record library =
  glob_Compile :: "string \<Rightarrow> error option"
  glob_Match :: "string \<Rightarrow> string \<Rightarrow> bool"
  regexp_Compile :: "string \<Rightarrow> error option"
  regexp_MatchString :: "string \<Rightarrow> string \<Rightarrow> bool"
  strings_EqualFold :: "string \<Rightarrow> string \<Rightarrow> bool"

text \<open>\<open>strings.HasPrefix\<close>, \<open>strings.Contains\<close> and \<open>strings.CutSuffix\<close> on byte strings.\<close>

definition strings_HasPrefix :: "string \<Rightarrow> string \<Rightarrow> bool" where
  "strings_HasPrefix s p = (take (length p) s = p)"

fun strings_Contains :: "string \<Rightarrow> string \<Rightarrow> bool" where
  "strings_Contains [] sub = (sub = [])"
| "strings_Contains (c # cs) sub = (strings_HasPrefix (c # cs) sub \<or> strings_Contains cs sub)"

definition strings_CutSuffix :: "string \<Rightarrow> string \<Rightarrow> string \<times> bool" where
  "strings_CutSuffix s suffix =
     (if length suffix \<le> length s \<and> drop (length s - length suffix) s = suffix
      then (take (length s - length suffix) s, True)
      else (s, False))"

subsection \<open>Patterns (\<open>pattern.go\<close>)\<close>

datatype PatternType = PatternTypeGlob | PatternTypeRegex

definition regexIndicators :: "string list" where
  "regexIndicators =
     [''^'', ''$'', ''(?'', [CHR 0x5C, CHR ''d''], [CHR 0x5C, CHR ''w''],
      [CHR 0x5C, CHR ''s''], [CHR 0x5C, CHR ''b''], ''['', '']'', ''('', '')'', ''|'',
      ''+'', ''.*'', ''.+'', [CHR 0x5C, CHR ''.'']]"

fun DetectPatternType_loop :: "string list \<Rightarrow> string \<Rightarrow> PatternType" where
  "DetectPatternType_loop [] pattern = PatternTypeGlob"
| "DetectPatternType_loop (indicator # rest) pattern =
     (if strings_Contains pattern indicator then PatternTypeRegex
      else DetectPatternType_loop rest pattern)"

definition DetectPatternType :: "string \<Rightarrow> PatternType" where
  "DetectPatternType pattern = DetectPatternType_loop regexIndicators pattern"

text \<open>
  A compiled pattern keeps its text; the compiled object of the library is a function of
  that text, so the text stands for it.
\<close>

datatype Pattern = GlobPattern string | RegexPattern string

definition NewGlobPattern :: "library \<Rightarrow> string \<Rightarrow> error + Pattern" where
  "NewGlobPattern L pattern =
     (case glob_Compile L pattern of Some err \<Rightarrow> Inl err | None \<Rightarrow> Inr (GlobPattern pattern))"

definition NewRegexPattern :: "library \<Rightarrow> string \<Rightarrow> error + Pattern" where
  "NewRegexPattern L pattern =
     (case regexp_Compile L pattern of Some err \<Rightarrow> Inl err | None \<Rightarrow> Inr (RegexPattern pattern))"

fun Pattern_Match :: "library \<Rightarrow> Pattern \<Rightarrow> string \<Rightarrow> bool" where
  "Pattern_Match L (GlobPattern p) s = glob_Match L p s"
| "Pattern_Match L (RegexPattern p) s = regexp_MatchString L p s"

fun Pattern_String :: "Pattern \<Rightarrow> string" where
  "Pattern_String (GlobPattern p) = p"
| "Pattern_String (RegexPattern p) = p"

definition CompilePattern :: "library \<Rightarrow> string \<Rightarrow> error + Pattern" where
  "CompilePattern L pattern =
     (case DetectPatternType pattern of
        PatternTypeRegex \<Rightarrow> NewRegexPattern L pattern
      | PatternTypeGlob \<Rightarrow> NewGlobPattern L pattern)"

subsection \<open>The pattern cache\<close>

record PatternCache =
  patterns :: "string \<rightharpoonup> Pattern"
  errors :: "string \<rightharpoonup> error"

definition NewPatternCache :: PatternCache where
  "NewPatternCache = \<lparr>patterns = Map.empty, errors = Map.empty\<rparr>"

text \<open>
  \<open>Get\<close> returns the pattern or the error, the cache after the call, and the texts it
  handed to \<open>CompilePattern\<close> during the call (none or one). The fast path reads under the
  read lock; the slow path takes the write lock, looks again and only then compiles.
\<close>

definition Get_slow ::
  "library \<Rightarrow> PatternCache \<Rightarrow> string \<Rightarrow> (error + Pattern) \<times> PatternCache \<times> string list" where
  "Get_slow L c patternStr =
     (case patterns c patternStr of
        Some p \<Rightarrow> (Inr p, c, [])
      | None \<Rightarrow>
          (case errors c patternStr of
             Some err \<Rightarrow> (Inl err, c, [])
           | None \<Rightarrow>
               (case CompilePattern L patternStr of
                  Inl err \<Rightarrow> (Inl err, c\<lparr>errors := (errors c)(patternStr \<mapsto> err)\<rparr>, [patternStr])
                | Inr pattern \<Rightarrow>
                    (Inr pattern, c\<lparr>patterns := (patterns c)(patternStr \<mapsto> pattern)\<rparr>,
                     [patternStr]))))"

definition Get ::
  "library \<Rightarrow> PatternCache \<Rightarrow> string \<Rightarrow> (error + Pattern) \<times> PatternCache \<times> string list" where
  "Get L c patternStr =
     (case patterns c patternStr of
        Some p \<Rightarrow> (Inr p, c, [])
      | None \<Rightarrow>
          (case errors c patternStr of
             Some err \<Rightarrow> (Inl err, c, [])
           | None \<Rightarrow> Get_slow L c patternStr))"

definition Clear_cache :: "PatternCache \<Rightarrow> PatternCache" where
  "Clear_cache c = \<lparr>patterns = Map.empty, errors = Map.empty\<rparr>"

text \<open>A run of \<open>Get\<close> calls on one cache: the final cache and all compiler calls made.\<close>

fun Get_all :: "library \<Rightarrow> PatternCache \<Rightarrow> string list \<Rightarrow> PatternCache \<times> string list" where
  "Get_all L c [] = (c, [])"
| "Get_all L c (t # ts) =
     (case Get L c t of (r, c', calls) \<Rightarrow>
        (case Get_all L c' ts of (c'', calls') \<Rightarrow> (c'', calls @ calls')))"

subsection \<open>Match contexts\<close>

text \<open>
  Modelled from the spec: the declarations of \<open>MatchContext\<close>, \<open>GitContext\<close>,
  \<open>FileContext\<close>, \<open>RuleMatch\<close>, \<open>RuleAction\<close>, \<open>Rule\<close>, \<open>RuleResult\<close>, \<open>ActionType\<close> and
  the \<open>ValidatorType\<close> constants (\<open>internal/rules/types.go\<close>) and of \<open>hook.Context\<close> are not
  among the sources. Their fields are those the code under study and its tests read and
  write. Of the hook context only what the matchers read is kept: the texts of
  \<open>ToolName.String()\<close> and \<open>EventType.String()\<close> and the values returned by \<open>GetFilePath()\<close>,
  \<open>GetCommand()\<close> and \<open>GetContent()\<close>.
\<close>

type_synonym ValidatorType = string

definition ValidatorAll :: ValidatorType where
  "ValidatorAll = ''*''"

definition ValidatorGitAll :: ValidatorType where
  "ValidatorGitAll = ''git.*''"

definition ValidatorGitPush :: ValidatorType where
  "ValidatorGitPush = ''git.push''"

definition ValidatorGitCommit :: ValidatorType where
  "ValidatorGitCommit = ''git.commit''"

definition ValidatorFileMarkdown :: ValidatorType where
  "ValidatorFileMarkdown = ''file.markdown''"

record GitContext =
  gc_RepoRoot :: string
  gc_Remote :: string
  gc_Branch :: string

record FileContext =
  fc_Path :: string
  fc_Content :: string

record HookContext =
  hc_EventType :: string
  hc_ToolName :: string
  hc_FilePath :: string
  hc_Command :: string
  hc_Content :: string

record MatchContext =
  mc_ValidatorType :: ValidatorType
  mc_GitContext :: "GitContext option"
  mc_FileContext :: "FileContext option"
  mc_Command :: string
  mc_HookContext :: "HookContext option"

subsection \<open>Matchers (\<open>matcher.go\<close>)\<close>

datatype panic = NilPointerDereference | IndexOutOfRange

type_synonym CompositeOp = int

definition CompositeOpAND :: CompositeOp where
  "CompositeOpAND = 0"

definition CompositeOpOR :: CompositeOp where
  "CompositeOpOR = 1"

definition CompositeOpNOT :: CompositeOp where
  "CompositeOpNOT = 2"

datatype Matcher =
    RepoPatternMatcher Pattern
  | RemoteMatcher string
  | BranchPatternMatcher Pattern
  | FilePatternMatcher Pattern
  | ContentPatternMatcher Pattern
  | CommandPatternMatcher Pattern
  | ValidatorTypeMatcher ValidatorType
  | ToolTypeMatcher string
  | EventTypeMatcher string
  | CompositeMatcher "Matcher list" CompositeOp
  | AlwaysMatcher
  | NeverMatcher

definition NewAndMatcher :: "Matcher list \<Rightarrow> Matcher" where
  "NewAndMatcher matchers = CompositeMatcher matchers CompositeOpAND"

definition NewOrMatcher :: "Matcher list \<Rightarrow> Matcher" where
  "NewOrMatcher matchers = CompositeMatcher matchers CompositeOpOR"

definition NewNotMatcher :: "Matcher \<Rightarrow> Matcher" where
  "NewNotMatcher matcher = CompositeMatcher [matcher] CompositeOpNOT"

text \<open>
  The validator-type test once the context is at hand (the body of
  \<open>ValidatorTypeMatcher.Match\<close> after its first \<open>if\<close>).
\<close>

definition ValidatorType_match :: "ValidatorType \<Rightarrow> ValidatorType \<Rightarrow> bool" where
  "ValidatorType_match validatorType target =
     (if target = [] then False
      else if target = validatorType then True
      else (case strings_CutSuffix validatorType ''.*'' of
              (before, ok) \<Rightarrow> if ok then strings_HasPrefix target (before @ ''.'') else False))"

text \<open>
  \<open>Match\<close> takes the context as the pointer it is in Go: \<open>None\<close> is \<open>nil\<close>, and reading a
  field through it panics. \<open>Match_AND\<close> and \<open>Match_OR\<close> are the two loops of
  \<open>CompositeMatcher.Match\<close>; a panic in a child ends the loop.
\<close>

fun Match :: "library \<Rightarrow> Matcher \<Rightarrow> MatchContext option \<Rightarrow> panic + bool"
  and Match_AND :: "library \<Rightarrow> Matcher list \<Rightarrow> MatchContext option \<Rightarrow> panic + bool"
  and Match_OR :: "library \<Rightarrow> Matcher list \<Rightarrow> MatchContext option \<Rightarrow> panic + bool"
where
  "Match L (RepoPatternMatcher pattern) ctx =
     (case ctx of
        None \<Rightarrow> Inl NilPointerDereference
      | Some c \<Rightarrow>
          (case mc_GitContext c of
             None \<Rightarrow> Inr False
           | Some g \<Rightarrow>
               if gc_RepoRoot g = [] then Inr False
               else Inr (Pattern_Match L pattern (gc_RepoRoot g))))"
| "Match L (RemoteMatcher remote) ctx =
     (case ctx of
        None \<Rightarrow> Inl NilPointerDereference
      | Some c \<Rightarrow>
          (case mc_GitContext c of
             None \<Rightarrow> Inr False
           | Some g \<Rightarrow> Inr (gc_Remote g = remote)))"
| "Match L (BranchPatternMatcher pattern) ctx =
     (case ctx of
        None \<Rightarrow> Inl NilPointerDereference
      | Some c \<Rightarrow>
          (case mc_GitContext c of
             None \<Rightarrow> Inr False
           | Some g \<Rightarrow>
               if gc_Branch g = [] then Inr False
               else Inr (Pattern_Match L pattern (gc_Branch g))))"
| "Match L (FilePatternMatcher pattern) ctx =
     (case ctx of
        None \<Rightarrow> Inl NilPointerDereference
      | Some c \<Rightarrow>
          if mc_FileContext c = None \<or> fc_Path (the (mc_FileContext c)) = [] then
            (case mc_HookContext c of
               Some h \<Rightarrow> Inr (Pattern_Match L pattern (hc_FilePath h))
             | None \<Rightarrow> Inr False)
          else Inr (Pattern_Match L pattern (fc_Path (the (mc_FileContext c)))))"
| "Match L (ContentPatternMatcher pattern) ctx =
     (case ctx of
        None \<Rightarrow> Inl NilPointerDereference
      | Some c \<Rightarrow>
          if mc_FileContext c = None \<or> fc_Content (the (mc_FileContext c)) = [] then
            (case mc_HookContext c of
               Some h \<Rightarrow> Inr (Pattern_Match L pattern (hc_Content h))
             | None \<Rightarrow> Inr False)
          else Inr (Pattern_Match L pattern (fc_Content (the (mc_FileContext c)))))"
| "Match L (CommandPatternMatcher pattern) ctx =
     (case ctx of
        None \<Rightarrow> Inl NilPointerDereference
      | Some c \<Rightarrow>
          if mc_Command c \<noteq> [] then Inr (Pattern_Match L pattern (mc_Command c))
          else
            (case mc_HookContext c of
               Some h \<Rightarrow> Inr (Pattern_Match L pattern (hc_Command h))
             | None \<Rightarrow> Inr False))"
| "Match L (ValidatorTypeMatcher validatorType) ctx =
     (if validatorType = ValidatorAll then Inr True
      else
        (case ctx of
           None \<Rightarrow> Inl NilPointerDereference
         | Some c \<Rightarrow> Inr (ValidatorType_match validatorType (mc_ValidatorType c))))"
| "Match L (ToolTypeMatcher toolType) ctx =
     (case ctx of
        None \<Rightarrow> Inl NilPointerDereference
      | Some c \<Rightarrow>
          (case mc_HookContext c of
             None \<Rightarrow> Inr False
           | Some h \<Rightarrow> Inr (strings_EqualFold L (hc_ToolName h) toolType)))"
| "Match L (EventTypeMatcher eventType) ctx =
     (case ctx of
        None \<Rightarrow> Inl NilPointerDereference
      | Some c \<Rightarrow>
          (case mc_HookContext c of
             None \<Rightarrow> Inr False
           | Some h \<Rightarrow> Inr (strings_EqualFold L (hc_EventType h) eventType)))"
| "Match L (CompositeMatcher [] op) ctx = Inr True"
| "Match L (CompositeMatcher (m # ms) op) ctx =
     (if op = CompositeOpAND then Match_AND L (m # ms) ctx
      else if op = CompositeOpOR then Match_OR L (m # ms) ctx
      else if op = CompositeOpNOT then
        (case Match L m ctx of Inl p \<Rightarrow> Inl p | Inr b \<Rightarrow> Inr (\<not> b))
      else Inr False)"
| "Match L AlwaysMatcher ctx = Inr True"
| "Match L NeverMatcher ctx = Inr False"
| "Match_AND L [] ctx = Inr True"
| "Match_AND L (m # ms) ctx =
     (case Match L m ctx of
        Inl p \<Rightarrow> Inl p
      | Inr b \<Rightarrow> if \<not> b then Inr False else Match_AND L ms ctx)"
| "Match_OR L [] ctx = Inr False"
| "Match_OR L (m # ms) ctx =
     (case Match L m ctx of
        Inl p \<Rightarrow> Inl p
      | Inr b \<Rightarrow> if b then Inr True else Match_OR L ms ctx)"

subsection \<open>Rules and the matcher builder\<close>

text \<open>
  Modelled from the spec: \<open>ActionType\<close>, \<open>RuleMatch\<close>, \<open>RuleAction\<close> and \<open>Rule\<close> are declared in
  \<open>internal/rules/types.go\<close>, which is not among the sources. An action is one of block,
  warn and allow; a rule has a name, a description, an enabled flag, an integer priority,
  an optional match block and an action, both pointers.
\<close>

datatype ActionType = ActionBlock | ActionWarn | ActionAllow

record RuleMatch =
  rm_ValidatorType :: ValidatorType
  rm_RepoPattern :: string
  rm_Remote :: string
  rm_BranchPattern :: string
  rm_FilePattern :: string
  rm_ContentPattern :: string
  rm_CommandPattern :: string
  rm_ToolType :: string
  rm_EventType :: string

record RuleAction =
  ra_Type :: ActionType
  ra_Message :: string
  ra_Reference :: string

record Rule =
  rule_Name :: string
  rule_Description :: string
  rule_Enabled :: bool
  rule_Priority :: int
  rule_Match :: "RuleMatch option"
  rule_Action :: "RuleAction option"

text \<open>
  \<open>GetCachedPattern\<close> reads and writes the process-wide default cache, which is threaded
  through every function that reaches it.
\<close>

definition GetCachedPattern ::
  "library \<Rightarrow> PatternCache \<Rightarrow> string \<Rightarrow> (error + Pattern) \<times> PatternCache" where
  "GetCachedPattern L defaultCache pattern =
     (case Get L defaultCache pattern of (r, c', calls) \<Rightarrow> (r, c'))"

definition NewRepoPatternMatcher ::
  "library \<Rightarrow> PatternCache \<Rightarrow> string \<Rightarrow> (error + Matcher) \<times> PatternCache" where
  "NewRepoPatternMatcher L c patternStr =
     (case GetCachedPattern L c patternStr of
        (Inl err, c') \<Rightarrow> (Inl err, c')
      | (Inr pattern, c') \<Rightarrow> (Inr (RepoPatternMatcher pattern), c'))"

definition NewBranchPatternMatcher ::
  "library \<Rightarrow> PatternCache \<Rightarrow> string \<Rightarrow> (error + Matcher) \<times> PatternCache" where
  "NewBranchPatternMatcher L c patternStr =
     (case GetCachedPattern L c patternStr of
        (Inl err, c') \<Rightarrow> (Inl err, c')
      | (Inr pattern, c') \<Rightarrow> (Inr (BranchPatternMatcher pattern), c'))"

definition NewFilePatternMatcher ::
  "library \<Rightarrow> PatternCache \<Rightarrow> string \<Rightarrow> (error + Matcher) \<times> PatternCache" where
  "NewFilePatternMatcher L c patternStr =
     (case GetCachedPattern L c patternStr of
        (Inl err, c') \<Rightarrow> (Inl err, c')
      | (Inr pattern, c') \<Rightarrow> (Inr (FilePatternMatcher pattern), c'))"

text \<open>Content patterns are always regular expressions and bypass the cache.\<close>

definition NewContentPatternMatcher ::
  "library \<Rightarrow> PatternCache \<Rightarrow> string \<Rightarrow> (error + Matcher) \<times> PatternCache" where
  "NewContentPatternMatcher L c patternStr =
     (case NewRegexPattern L patternStr of
        Inl err \<Rightarrow> (Inl err, c)
      | Inr pattern \<Rightarrow> (Inr (ContentPatternMatcher pattern), c))"

definition NewCommandPatternMatcher ::
  "library \<Rightarrow> PatternCache \<Rightarrow> string \<Rightarrow> (error + Matcher) \<times> PatternCache" where
  "NewCommandPatternMatcher L c patternStr =
     (case GetCachedPattern L c patternStr of
        (Inl err, c') \<Rightarrow> (Inl err, c')
      | (Inr pattern, c') \<Rightarrow> (Inr (CommandPatternMatcher pattern), c'))"

record matcherBuilder =
  mb_matchers :: "Matcher list"
  mb_err :: "error option"

definition addSimple :: "matcherBuilder \<Rightarrow> Matcher \<Rightarrow> matcherBuilder" where
  "addSimple b m = (if mb_err b \<noteq> None then b else b\<lparr>mb_matchers := mb_matchers b @ [m]\<rparr>)"

definition addPatternMatcher ::
  "library \<Rightarrow> PatternCache \<times> matcherBuilder \<Rightarrow> string \<Rightarrow>
   (library \<Rightarrow> PatternCache \<Rightarrow> string \<Rightarrow> (error + Matcher) \<times> PatternCache) \<Rightarrow>
   PatternCache \<times> matcherBuilder" where
  "addPatternMatcher L cb pattern factory =
     (case cb of (c, b) \<Rightarrow>
        if mb_err b \<noteq> None \<or> pattern = [] then (c, b)
        else
          (case factory L c pattern of
             (Inl err, c') \<Rightarrow> (c', b\<lparr>mb_err := Some err\<rparr>)
           | (Inr m, c') \<Rightarrow> (c', b\<lparr>mb_matchers := mb_matchers b @ [m]\<rparr>)))"

text \<open>\<open>result\<close> of the builder: \<open>Inr None\<close> is Go's \<open>(nil, nil)\<close>.\<close>

definition builder_result :: "matcherBuilder \<Rightarrow> error + Matcher option" where
  "builder_result b =
     (case mb_err b of
        Some err \<Rightarrow> Inl err
      | None \<Rightarrow>
          (case mb_matchers b of
             [] \<Rightarrow> Inr None
           | [m] \<Rightarrow> Inr (Some m)
           | _ \<Rightarrow> Inr (Some (NewAndMatcher (mb_matchers b)))))"

definition BuildMatcher ::
  "library \<Rightarrow> PatternCache \<Rightarrow> RuleMatch option \<Rightarrow> (error + Matcher option) \<times> PatternCache" where
  "BuildMatcher L c match =
     (case match of
        None \<Rightarrow> (Inr None, c)
      | Some m \<Rightarrow>
          (let b0 = \<lparr>mb_matchers = [], mb_err = None\<rparr>;
               b1 = (if rm_ValidatorType m \<noteq> []
                     then addSimple b0 (ValidatorTypeMatcher (rm_ValidatorType m)) else b0);
               b2 = (if rm_Remote m \<noteq> [] then addSimple b1 (RemoteMatcher (rm_Remote m)) else b1);
               b3 = (if rm_ToolType m \<noteq> []
                     then addSimple b2 (ToolTypeMatcher (rm_ToolType m)) else b2);
               b4 = (if rm_EventType m \<noteq> []
                     then addSimple b3 (EventTypeMatcher (rm_EventType m)) else b3);
               cb5 = addPatternMatcher L (c, b4) (rm_RepoPattern m) NewRepoPatternMatcher;
               cb6 = addPatternMatcher L cb5 (rm_BranchPattern m) NewBranchPatternMatcher;
               cb7 = addPatternMatcher L cb6 (rm_FilePattern m) NewFilePatternMatcher;
               cb8 = addPatternMatcher L cb7 (rm_ContentPattern m) NewContentPatternMatcher;
               cb9 = addPatternMatcher L cb8 (rm_CommandPattern m) NewCommandPatternMatcher
           in (builder_result (snd cb9), fst cb9)))"

subsection \<open>The registry (\<open>registry.go\<close>)\<close>

text \<open>
  A compiled rule holds a pointer to its rule; \<open>Add\<close> stores it only after its nil check,
  so the rule is there. Rules are values: nobody writes to a rule after handing it to the
  registry.
\<close>

record CompiledRule =
  cr_Rule :: Rule
  cr_Matcher :: Matcher

record Registry =
  rules :: "CompiledRule list"

definition NewRegistry :: Registry where
  "NewRegistry = \<lparr>rules = []\<rparr>"

definition cmp_Compare :: "'a::linorder \<Rightarrow> 'a \<Rightarrow> int" where
  "cmp_Compare x y = (if x < y then - 1 else if y < x then 1 else 0)"

text \<open>The comparison function handed to \<open>slices.SortFunc\<close> by \<open>sortRulesLocked\<close>.\<close>

definition rule_cmp :: "CompiledRule \<Rightarrow> CompiledRule \<Rightarrow> int" where
  "rule_cmp a b =
     (let result = cmp_Compare (rule_Priority (cr_Rule b)) (rule_Priority (cr_Rule a))
      in if result \<noteq> 0 then result
         else cmp_Compare (rule_Name (cr_Rule a)) (rule_Name (cr_Rule b)))"

text \<open>
  \<open>slices.SortFunc\<close> sorts in ascending order of the comparison and promises no stability.
  It is modelled by insertion sort, which keeps equal elements in their order. Elements
  compare equal under \<open>rule_cmp\<close> only when they share priority and name; the registry
  never holds two rules of one name, and then the sorted list is the same for every
  sorting algorithm (lemma \<open>sorted_permutation_unique\<close> below).
\<close>

fun SortFunc_insert :: "('a \<Rightarrow> 'a \<Rightarrow> int) \<Rightarrow> 'a \<Rightarrow> 'a list \<Rightarrow> 'a list" where
  "SortFunc_insert cmp x [] = [x]"
| "SortFunc_insert cmp x (y # ys) =
     (if cmp y x \<le> 0 then y # SortFunc_insert cmp x ys else x # y # ys)"

fun SortFunc :: "('a \<Rightarrow> 'a \<Rightarrow> int) \<Rightarrow> 'a list \<Rightarrow> 'a list" where
  "SortFunc cmp [] = []"
| "SortFunc cmp (x # xs) = SortFunc_insert cmp x (SortFunc cmp xs)"

definition sortRulesLocked :: "CompiledRule list \<Rightarrow> CompiledRule list" where
  "sortRulesLocked rs = SortFunc rule_cmp rs"

definition errors_Wrap :: "error \<Rightarrow> string \<Rightarrow> error" where
  "errors_Wrap err message = message @ '': '' @ err"

text \<open>
  The loop of \<open>Add\<close> over the stored rules: the first entry of the same name is
  overwritten in place; \<open>None\<close> when the loop ends without finding one.
\<close>

fun Add_replace :: "CompiledRule list \<Rightarrow> string \<Rightarrow> CompiledRule \<Rightarrow> CompiledRule list option" where
  "Add_replace [] name new = None"
| "Add_replace (existing # rest) name new =
     (if rule_Name (cr_Rule existing) = name then Some (new # rest)
      else (case Add_replace rest name new of
              None \<Rightarrow> None
            | Some rest' \<Rightarrow> Some (existing # rest')))"

definition Add ::
  "library \<Rightarrow> PatternCache \<Rightarrow> Registry \<Rightarrow> Rule option \<Rightarrow> error option \<times> PatternCache \<times> Registry" where
  "Add L c r rule =
     (case rule of
        None \<Rightarrow> (Some ''rule cannot be nil'', c, r)
      | Some rl \<Rightarrow>
          if rule_Name rl = [] then (Some ''rule name cannot be empty'', c, r)
          else if rule_Action rl = None then (Some ''rule action cannot be nil'', c, r)
          else
            (case BuildMatcher L c (rule_Match rl) of
               (Inl err, c') \<Rightarrow> (Some (errors_Wrap err ''failed to compile rule matcher''), c', r)
             | (Inr built, c') \<Rightarrow>
                 (let matcher = (case built of None \<Rightarrow> AlwaysMatcher | Some m \<Rightarrow> m);
                      new = \<lparr>cr_Rule = rl, cr_Matcher = matcher\<rparr>
                  in case Add_replace (rules r) (rule_Name rl) new of
                       Some rs \<Rightarrow> (None, c', r\<lparr>rules := sortRulesLocked rs\<rparr>)
                     | None \<Rightarrow> (None, c', r\<lparr>rules := sortRulesLocked (rules r @ [new])\<rparr>))))"

fun AddAll ::
  "library \<Rightarrow> PatternCache \<Rightarrow> Registry \<Rightarrow> Rule option list \<Rightarrow>
   error option \<times> PatternCache \<times> Registry" where
  "AddAll L c r [] = (None, c, r)"
| "AddAll L c r (rule # rest) =
     (case Add L c r rule of
        (Some err, c', r') \<Rightarrow> (Some err, c', r')
      | (None, c', r') \<Rightarrow> AddAll L c' r' rest)"

fun Remove_loop :: "CompiledRule list \<Rightarrow> string \<Rightarrow> CompiledRule list option" where
  "Remove_loop [] name = None"
| "Remove_loop (rule # rest) name =
     (if rule_Name (cr_Rule rule) = name then Some rest
      else (case Remove_loop rest name of
              None \<Rightarrow> None
            | Some rest' \<Rightarrow> Some (rule # rest')))"

definition Remove :: "Registry \<Rightarrow> string \<Rightarrow> bool \<times> Registry" where
  "Remove r name =
     (case Remove_loop (rules r) name of
        Some rs \<Rightarrow> (True, r\<lparr>rules := rs\<rparr>)
      | None \<Rightarrow> (False, r))"

fun Get_rule_loop :: "CompiledRule list \<Rightarrow> string \<Rightarrow> CompiledRule option" where
  "Get_rule_loop [] name = None"
| "Get_rule_loop (rule # rest) name =
     (if rule_Name (cr_Rule rule) = name then Some rule else Get_rule_loop rest name)"

definition Get_rule :: "Registry \<Rightarrow> string \<Rightarrow> CompiledRule option" where
  "Get_rule r name = Get_rule_loop (rules r) name"

definition GetAll :: "Registry \<Rightarrow> CompiledRule list" where
  "GetAll r = rules r"

fun GetEnabled_loop :: "CompiledRule list \<Rightarrow> CompiledRule list \<Rightarrow> CompiledRule list" where
  "GetEnabled_loop [] result = result"
| "GetEnabled_loop (rule # rest) result =
     (if rule_Enabled (cr_Rule rule) then GetEnabled_loop rest (result @ [rule])
      else GetEnabled_loop rest result)"

definition GetEnabled :: "Registry \<Rightarrow> CompiledRule list" where
  "GetEnabled r = GetEnabled_loop (rules r) []"

definition Size :: "Registry \<Rightarrow> nat" where
  "Size r = length (rules r)"

definition Clear :: "Registry \<Rightarrow> Registry" where
  "Clear r = r\<lparr>rules := []\<rparr>"

text \<open>
  \<open>Merge\<close>: the index of the receiver's rules by name (a later entry of the same name
  overwrites an earlier one in the index), then the loop over the source's rules. Writing
  \<open>r.rules[idx]\<close> with \<open>idx\<close> out of range would panic.
\<close>

fun Merge_index :: "CompiledRule list \<Rightarrow> nat \<Rightarrow> (string \<rightharpoonup> nat) \<Rightarrow> (string \<rightharpoonup> nat)" where
  "Merge_index [] i existing = existing"
| "Merge_index (rule # rest) i existing =
     Merge_index rest (Suc i) (existing(rule_Name (cr_Rule rule) \<mapsto> i))"

fun Merge_loop ::
  "CompiledRule list \<Rightarrow> CompiledRule list \<Rightarrow> (string \<rightharpoonup> nat) \<Rightarrow> panic + CompiledRule list" where
  "Merge_loop [] rs existing = Inr rs"
| "Merge_loop (srcRule # rest) rs existing =
     (case existing (rule_Name (cr_Rule srcRule)) of
        Some idx \<Rightarrow>
          if idx < length rs then Merge_loop rest (rs[idx := srcRule]) existing
          else Inl IndexOutOfRange
      | None \<Rightarrow>
          Merge_loop rest (rs @ [srcRule])
            (existing(rule_Name (cr_Rule srcRule) \<mapsto> length (rs @ [srcRule]) - 1)))"

definition Merge :: "Registry \<Rightarrow> Registry option \<Rightarrow> panic + Registry" where
  "Merge r source =
     (case source of
        None \<Rightarrow> Inr r
      | Some s \<Rightarrow>
          (case Merge_loop (rules s) (rules r) (Merge_index (rules r) 0 Map.empty) of
             Inl p \<Rightarrow> Inl p
           | Inr rs \<Rightarrow> Inr (r\<lparr>rules := sortRulesLocked rs\<rparr>)))"

subsection \<open>The evaluator (\<open>evaluator.go\<close>)\<close>

text \<open>
  Modelled from the spec: \<open>RuleResult\<close> is declared in \<open>internal/rules/types.go\<close>; its fields
  are those the result literals of \<open>Evaluate\<close> set.
\<close>

record RuleResult =
  res_Matched :: bool
  res_Rule :: "Rule option"
  res_Action :: ActionType
  res_Message :: string
  res_Reference :: string

record Evaluator =
  ev_registry :: "Registry option"
  ev_stopOnFirstMatch :: bool
  ev_defaultAction :: ActionType

definition WithStopOnFirstMatch :: "bool \<Rightarrow> Evaluator \<Rightarrow> Evaluator" where
  "WithStopOnFirstMatch stop e = e\<lparr>ev_stopOnFirstMatch := stop\<rparr>"

definition WithDefaultAction :: "ActionType \<Rightarrow> Evaluator \<Rightarrow> Evaluator" where
  "WithDefaultAction action e = e\<lparr>ev_defaultAction := action\<rparr>"

definition NewEvaluator :: "Registry option \<Rightarrow> (Evaluator \<Rightarrow> Evaluator) list \<Rightarrow> Evaluator" where
  "NewEvaluator registry opts =
     fold (\<lambda>opt e. opt e) opts
       \<lparr>ev_registry = registry, ev_stopOnFirstMatch = True, ev_defaultAction = ActionAllow\<rparr>"

text \<open>
  The result literal of a matching rule. Reading \<open>compiled.Rule.Action.Type\<close> goes through
  the rule's action pointer.
\<close>

definition matched_result :: "CompiledRule \<Rightarrow> panic + RuleResult" where
  "matched_result compiled =
     (case rule_Action (cr_Rule compiled) of
        None \<Rightarrow> Inl NilPointerDereference
      | Some action \<Rightarrow>
          Inr \<lparr>res_Matched = True, res_Rule = Some (cr_Rule compiled),
               res_Action = ra_Type action, res_Message = ra_Message action,
               res_Reference = ra_Reference action\<rparr>)"

definition unmatched_result :: "ActionType \<Rightarrow> RuleResult" where
  "unmatched_result defaultAction =
     \<lparr>res_Matched = False, res_Rule = None, res_Action = defaultAction,
      res_Message = [], res_Reference = []\<rparr>"

fun Evaluate_loop ::
  "library \<Rightarrow> CompiledRule list \<Rightarrow> MatchContext option \<Rightarrow> ActionType \<Rightarrow> panic + RuleResult" where
  "Evaluate_loop L [] ctx defaultAction = Inr (unmatched_result defaultAction)"
| "Evaluate_loop L (compiled # rest) ctx defaultAction =
     (case Match L (cr_Matcher compiled) ctx of
        Inl p \<Rightarrow> Inl p
      | Inr b \<Rightarrow>
          if b then matched_result compiled
          else Evaluate_loop L rest ctx defaultAction)"

definition Evaluate :: "library \<Rightarrow> Evaluator \<Rightarrow> MatchContext option \<Rightarrow> panic + RuleResult" where
  "Evaluate L e ctx =
     (case ev_registry e of
        None \<Rightarrow> Inr (unmatched_result (ev_defaultAction e))
      | Some registry \<Rightarrow>
          (let enabled = GetEnabled registry
           in if length enabled = 0 then Inr (unmatched_result (ev_defaultAction e))
              else Evaluate_loop L enabled ctx (ev_defaultAction e)))"

fun EvaluateAll_loop ::
  "library \<Rightarrow> CompiledRule list \<Rightarrow> MatchContext option \<Rightarrow> RuleResult list \<Rightarrow>
   panic + RuleResult list" where
  "EvaluateAll_loop L [] ctx results = Inr results"
| "EvaluateAll_loop L (compiled # rest) ctx results =
     (case Match L (cr_Matcher compiled) ctx of
        Inl p \<Rightarrow> Inl p
      | Inr b \<Rightarrow>
          if b then
            (case matched_result compiled of
               Inl p \<Rightarrow> Inl p
             | Inr res \<Rightarrow> EvaluateAll_loop L rest ctx (results @ [res]))
          else EvaluateAll_loop L rest ctx results)"

definition EvaluateAll ::
  "library \<Rightarrow> Evaluator \<Rightarrow> MatchContext option \<Rightarrow> panic + RuleResult list" where
  "EvaluateAll L e ctx =
     (case ev_registry e of
        None \<Rightarrow> Inr []
      | Some registry \<Rightarrow>
          (let enabled = GetEnabled registry
           in if length enabled = 0 then Inr []
              else EvaluateAll_loop L enabled ctx []))"

fun FilterByValidator_loop ::
  "library \<Rightarrow> CompiledRule list \<Rightarrow> MatchContext option \<Rightarrow> CompiledRule list \<Rightarrow>
   panic + CompiledRule list" where
  "FilterByValidator_loop L [] ctx filtered = Inr filtered"
| "FilterByValidator_loop L (compiled # rest) ctx filtered =
     (if rule_Match (cr_Rule compiled) = None
         \<or> rm_ValidatorType (the (rule_Match (cr_Rule compiled))) = []
      then FilterByValidator_loop L rest ctx (filtered @ [compiled])
      else
        (case Match L (ValidatorTypeMatcher (rm_ValidatorType (the (rule_Match (cr_Rule compiled)))))
                ctx of
           Inl p \<Rightarrow> Inl p
         | Inr b \<Rightarrow>
             if b then FilterByValidator_loop L rest ctx (filtered @ [compiled])
             else FilterByValidator_loop L rest ctx filtered))"

definition FilterByValidator ::
  "library \<Rightarrow> Evaluator \<Rightarrow> ValidatorType \<Rightarrow> panic + CompiledRule list" where
  "FilterByValidator L e validatorType =
     (case ev_registry e of
        None \<Rightarrow> Inr []
      | Some registry \<Rightarrow>
          (let enabled = GetEnabled registry
           in if length enabled = 0 then Inr []
              else
                FilterByValidator_loop L enabled
                  (Some \<lparr>mc_ValidatorType = validatorType, mc_GitContext = None,
                         mc_FileContext = None, mc_Command = [], mc_HookContext = None\<rparr>)
                  []))"

subsection \<open>Reachable registries\<close>

text \<open>
  The field \<open>rules\<close> of a registry is unexported: every registry a caller holds was made
  by \<open>NewRegistry\<close> and changed only by \<open>Add\<close>, \<open>Remove\<close>, \<open>Clear\<close> and \<open>Merge\<close>. The default
  pattern cache may be in any state when \<open>Add\<close> runs.
\<close>

inductive reachable :: "library \<Rightarrow> Registry \<Rightarrow> bool" for L :: library where
  reachable_New: "reachable L NewRegistry"
| reachable_Add: "reachable L r \<Longrightarrow> Add L c r rule = (res, c', r') \<Longrightarrow> reachable L r'"
| reachable_Remove: "reachable L r \<Longrightarrow> Remove r name = (found, r') \<Longrightarrow> reachable L r'"
| reachable_Clear: "reachable L r \<Longrightarrow> reachable L (Clear r)"
| reachable_Merge:
    "reachable L r \<Longrightarrow> reachable L s \<Longrightarrow> Merge r (Some s) = Inr r' \<Longrightarrow> reachable L r'"

text \<open>The order the registry keeps: descending priority, then ascending name.\<close>

definition rule_before :: "CompiledRule \<Rightarrow> CompiledRule \<Rightarrow> bool" where
  "rule_before a b =
     (rule_Priority (cr_Rule a) > rule_Priority (cr_Rule b)
      \<or> (rule_Priority (cr_Rule a) = rule_Priority (cr_Rule b)
         \<and> rule_Name (cr_Rule a) < rule_Name (cr_Rule b)))"

definition rule_names :: "CompiledRule list \<Rightarrow> string list" where
  "rule_names rs = map (\<lambda>cr. rule_Name (cr_Rule cr)) rs"

text \<open>What the cache holds for a text: the pattern, else the remembered error.\<close>

definition cached :: "PatternCache \<Rightarrow> string \<Rightarrow> (error + Pattern) option" where
  "cached c t =
     (case patterns c t of
        Some p \<Rightarrow> Some (Inr p)
      | None \<Rightarrow> (case errors c t of Some err \<Rightarrow> Some (Inl err) | None \<Rightarrow> None))"

text \<open>
  What \<open>Add\<close> has checked of every stored rule, and the state the registry keeps: names
  pairwise different, the order \<open>rule_before\<close>, and every rule checked.
\<close>

definition rule_ok :: "CompiledRule \<Rightarrow> bool" where
  "rule_ok cr = (rule_Name (cr_Rule cr) \<noteq> [] \<and> rule_Action (cr_Rule cr) \<noteq> None)"

definition registry_inv :: "CompiledRule list \<Rightarrow> bool" where
  "registry_inv rs =
     (distinct (rule_names rs) \<and> sorted_wrt rule_before rs \<and> (\<forall>cr\<in>set rs. rule_ok cr))"

text \<open>
  The index \<open>existing\<close> of \<open>Merge\<close> fits the rules: every index it holds is in range and
  points at a rule of that name, and every stored name is indexed.
\<close>

definition index_ok :: "(string \<rightharpoonup> nat) \<Rightarrow> CompiledRule list \<Rightarrow> bool" where
  "index_ok existing rs =
     ((\<forall>n i. existing n = Some i \<longrightarrow> i < length rs \<and> rule_Name (cr_Rule (rs ! i)) = n)
      \<and> (\<forall>cr\<in>set rs. existing (rule_Name (cr_Rule cr)) \<noteq> None))"

subsection \<open>Concrete instances\<close>

text \<open>
  A small library instance for evaluating the functions on concrete inputs. It stands in
  for the Go libraries on the patterns used in this theory only: a glob without
  metacharacters matches exactly its own text, a regular expression without
  metacharacters matches the strings that contain it, the regular expression \<open>.*\<close>
  matches every string (the empty one too), and the text \<open>[invalid\<close> compiles neither as
  a glob nor as a regular expression.
\<close>

definition ascii_lower :: "char \<Rightarrow> char" where
  "ascii_lower ch =
     (if CHR ''A'' \<le> ch \<and> ch \<le> CHR ''Z'' then char_of (of_char ch + (32::nat)) else ch)"

definition demo_library :: library where
  "demo_library =
     \<lparr>glob_Compile = (\<lambda>p. if CHR ''['' \<in> set p then Some ''unexpected end of input'' else None),
      glob_Match = (\<lambda>p s. p = s),
      regexp_Compile = (\<lambda>p. if p = ''[invalid'' then Some ''missing closing ]'' else None),
      regexp_MatchString = (\<lambda>p s. p = ''.*'' \<or> strings_Contains s p),
      strings_EqualFold = (\<lambda>s t. map ascii_lower s = map ascii_lower t)\<rparr>"

text \<open>
  A context for a Bash tool event in which only the hook context is set: the event
  carries a command but no file path and no content.
\<close>

definition bash_event_context :: MatchContext where
  "bash_event_context =
     \<lparr>mc_ValidatorType = [], mc_GitContext = None, mc_FileContext = None, mc_Command = [],
      mc_HookContext =
        Some \<lparr>hc_EventType = ''PreToolUse'', hc_ToolName = ''Bash'', hc_FilePath = [],
              hc_Command = ''git status'', hc_Content = []\<rparr>\<rparr>"

text \<open>Rules for concrete evaluations, and the registry built from a list of rules.\<close>

definition no_conditions :: RuleMatch where
  "no_conditions =
     \<lparr>rm_ValidatorType = [], rm_RepoPattern = [], rm_Remote = [], rm_BranchPattern = [],
      rm_FilePattern = [], rm_ContentPattern = [], rm_CommandPattern = [], rm_ToolType = [],
      rm_EventType = []\<rparr>"

definition example_rule ::
  "string \<Rightarrow> int \<Rightarrow> bool \<Rightarrow> RuleMatch option \<Rightarrow> ActionType \<Rightarrow> string \<Rightarrow> Rule" where
  "example_rule name priority enabled match action message =
     \<lparr>rule_Name = name, rule_Description = [], rule_Enabled = enabled, rule_Priority = priority,
      rule_Match = match,
      rule_Action = Some \<lparr>ra_Type = action, ra_Message = message, ra_Reference = []\<rparr>\<rparr>"

definition rule_invalid_pattern :: Rule where
  "rule_invalid_pattern =
     example_rule ''bad'' 0 True (Some (no_conditions\<lparr>rm_RepoPattern := ''[invalid''\<rparr>))
       ActionBlock []"

definition rule_R1 :: Rule where
  "rule_R1 =
     example_rule ''R1'' 100 True (Some (no_conditions\<lparr>rm_Remote := ''origin''\<rparr>))
       ActionBlock ''no origin push''"

definition rule_R2 :: Rule where
  "rule_R2 = example_rule ''R2'' 1 True None ActionAllow []"

definition registry_of :: "library \<Rightarrow> Rule list \<Rightarrow> Registry" where
  "registry_of L rs = snd (snd (AddAll L NewPatternCache NewRegistry (map Some rs)))"

definition remote_context :: "string \<Rightarrow> MatchContext" where
  "remote_context remote =
     \<lparr>mc_ValidatorType = ''git.push'',
      mc_GitContext = Some \<lparr>gc_RepoRoot = [], gc_Remote = remote, gc_Branch = []\<rparr>,
      mc_FileContext = None, mc_Command = [], mc_HookContext = None\<rparr>"

definition rule_disabled :: Rule where
  "rule_disabled = example_rule ''off'' 0 False None ActionBlock []"

definition rule_any_validator :: Rule where
  "rule_any_validator = example_rule ''any'' 0 True None ActionWarn []"

definition rule_git_validators :: Rule where
  "rule_git_validators =
     example_rule ''git'' 0 True (Some (no_conditions\<lparr>rm_ValidatorType := ''git.*''\<rparr>)) ActionWarn []"

definition rule_markdown_validator :: Rule where
  "rule_markdown_validator =
     example_rule ''md'' 0 True (Some (no_conditions\<lparr>rm_ValidatorType := ''file.markdown''\<rparr>))
       ActionWarn []"

section \<open>Properties\<close>

subsection \<open>Matchers\<close>

lemma Match_AND_total_aux:
  "\<forall>m\<in>set ms. \<exists>b. Match L m ctx = Inr b \<Longrightarrow> \<exists>b. Match_AND L ms ctx = Inr b"
proof (induction ms)
  case Nil
  show ?case by auto
next
  case (Cons m ms)
  then obtain b where "Match L m ctx = Inr b" by auto
  moreover from Cons obtain b' where "Match_AND L ms ctx = Inr b'" by auto
  ultimately show ?case by auto
qed

lemma Match_OR_total_aux:
  "\<forall>m\<in>set ms. \<exists>b. Match L m ctx = Inr b \<Longrightarrow> \<exists>b. Match_OR L ms ctx = Inr b"
proof (induction ms)
  case Nil
  show ?case by auto
next
  case (Cons m ms)
  then obtain b where "Match L m ctx = Inr b" by auto
  moreover from Cons obtain b' where "Match_OR L ms ctx = Inr b'" by auto
  ultimately show ?case by auto
qed

text \<open>On a context that is there, no matcher panics, however deep the composites nest.\<close>

lemma Match_Some_total: "\<exists>b. Match L m (Some c) = Inr b"
proof (induction m)
  case (CompositeMatcher ms op)
  show ?case
  proof (cases ms)
    case Nil
    then show ?thesis by auto
  next
    case (Cons m' ms')
    have all: "\<forall>m\<in>set ms. \<exists>b. Match L m (Some c) = Inr b"
      using CompositeMatcher by blast
    from all obtain b1 where "Match_AND L ms (Some c) = Inr b1"
      using Match_AND_total_aux by blast
    moreover from all obtain b2 where "Match_OR L ms (Some c) = Inr b2"
      using Match_OR_total_aux by blast
    moreover from all Cons obtain b3 where "Match L m' (Some c) = Inr b3" by auto
    ultimately show ?thesis using Cons by auto
  qed
qed (auto split: option.splits)

lemma strings_CutSuffix_append: "strings_CutSuffix (s @ suffix) suffix = (s, True)"
  by (simp add: strings_CutSuffix_def)

subsection \<open>Composite matchers\<close>

lemma Match_AND_append:
  "\<forall>m\<in>set pre. Match L m ctx = Inr True \<Longrightarrow>
   Match_AND L (pre @ rest) ctx = Match_AND L rest ctx"
  by (induction pre) auto

lemma Match_OR_append:
  "\<forall>m\<in>set pre. Match L m ctx = Inr False \<Longrightarrow>
   Match_OR L (pre @ rest) ctx = Match_OR L rest ctx"
  by (induction pre) auto

lemma Match_composite_nonempty:
  "ms \<noteq> [] \<Longrightarrow> Match L (NewAndMatcher ms) ctx = Match_AND L ms ctx"
  "ms \<noteq> [] \<Longrightarrow> Match L (NewOrMatcher ms) ctx = Match_OR L ms ctx"
  by (cases ms; simp add: NewAndMatcher_def NewOrMatcher_def CompositeOpAND_def CompositeOpOR_def)+

text \<open>
  What holds of the composites: AND without children matches; AND is false at the first
  false child, whatever follows it (a later child that would panic is never asked); OR is
  true at the first true child; OR with children that are all false is false; NOT inverts
  its child.
\<close>

lemma AND_without_children: "Match L (NewAndMatcher []) ctx = Inr True"
  by (simp add: NewAndMatcher_def)

lemma AND_short_circuit:
  assumes "\<forall>m\<in>set pre. Match L m ctx = Inr True" and "Match L m ctx = Inr False"
  shows "Match L (NewAndMatcher (pre @ m # post)) ctx = Inr False"
  using assms by (simp add: Match_composite_nonempty Match_AND_append)

lemma AND_all_true:
  assumes "\<forall>m\<in>set ms. Match L m ctx = Inr True"
  shows "Match L (NewAndMatcher ms) ctx = Inr True"
  using Match_AND_append[OF assms, of "[]"]
  by (cases "ms = []") (simp_all add: AND_without_children Match_composite_nonempty)

lemma OR_short_circuit:
  assumes "\<forall>m\<in>set pre. Match L m ctx = Inr False" and "Match L m ctx = Inr True"
  shows "Match L (NewOrMatcher (pre @ m # post)) ctx = Inr True"
  using assms by (simp add: Match_composite_nonempty Match_OR_append)

lemma OR_all_false:
  assumes "\<forall>m\<in>set ms. Match L m ctx = Inr False" and "ms \<noteq> []"
  shows "Match L (NewOrMatcher ms) ctx = Inr False"
  using Match_OR_append[OF assms(1), of "[]"] assms(2) by (simp add: Match_composite_nonempty)

lemma NOT_inverts:
  "Match L m ctx = Inr b \<Longrightarrow> Match L (NewNotMatcher m) ctx = Inr (\<not> b)"
  by (simp add: NewNotMatcher_def CompositeOpAND_def CompositeOpOR_def CompositeOpNOT_def)

text \<open>
  C2. The claim has an OR matcher with zero children match no context. In the code the
  test \<open>len(m.matchers) == 0\<close> comes before the switch on the operation and returns true
  for every operation: an OR matcher without children matches every context, the absent
  one included.
\<close>

theorem OR_without_children_matches:
  "Match L (NewOrMatcher []) ctx = Inr True"
  by (simp add: NewOrMatcher_def)

subsection \<open>The validator-type matcher\<close>

text \<open>
  C6. A validator-type matcher configured with \<open>*\<close> matches every context, also one whose
  validator type is empty. On a context whose validator type is empty a matcher matches
  only if it is configured with \<open>*\<close>. Configured with \<open>git.*\<close> it matches \<open>git.push\<close> and
  \<open>git.commit\<close> and not \<open>file.markdown\<close>; in general, configured with \<open>category.*\<close> it matches
  exactly the validator types that begin with \<open>category.\<close>.
\<close>

theorem ValidatorTypeMatcher_semantics:
  "Match L (ValidatorTypeMatcher ValidatorAll) (Some c) = Inr True
   \<and> Match L (ValidatorTypeMatcher ValidatorAll) (Some (c\<lparr>mc_ValidatorType := []\<rparr>)) = Inr True
   \<and> Match L (ValidatorTypeMatcher v) (Some (c\<lparr>mc_ValidatorType := []\<rparr>)) = Inr (v = ValidatorAll)
   \<and> Match L (ValidatorTypeMatcher ''git.*'') (Some (c\<lparr>mc_ValidatorType := ''git.push''\<rparr>))
       = Inr True
   \<and> Match L (ValidatorTypeMatcher ''git.*'') (Some (c\<lparr>mc_ValidatorType := ''git.commit''\<rparr>))
       = Inr True
   \<and> Match L (ValidatorTypeMatcher ''git.*'') (Some (c\<lparr>mc_ValidatorType := ''file.markdown''\<rparr>))
       = Inr False
   \<and> Match L (ValidatorTypeMatcher (category @ ''.*'')) (Some (c\<lparr>mc_ValidatorType := t\<rparr>))
       = Inr (strings_HasPrefix t (category @ ''.''))"
proof -
  have cut: "strings_CutSuffix ''git.*'' ''.*'' = (''git'', True)"
    using strings_CutSuffix_append[of "''git''" "''.*''"] by simp
  have a: "Match L (ValidatorTypeMatcher ValidatorAll) (Some c) = Inr True"
    by simp
  have a': "Match L (ValidatorTypeMatcher ValidatorAll) (Some (c\<lparr>mc_ValidatorType := []\<rparr>))
      = Inr True"
    by simp
  have b: "Match L (ValidatorTypeMatcher v) (Some (c\<lparr>mc_ValidatorType := []\<rparr>))
      = Inr (v = ValidatorAll)"
    by (simp add: ValidatorType_match_def)
  have c1: "Match L (ValidatorTypeMatcher ''git.*'') (Some (c\<lparr>mc_ValidatorType := ''git.push''\<rparr>))
      = Inr True"
    by (simp add: ValidatorType_match_def ValidatorAll_def cut strings_HasPrefix_def)
  have c2: "Match L (ValidatorTypeMatcher ''git.*'') (Some (c\<lparr>mc_ValidatorType := ''git.commit''\<rparr>))
      = Inr True"
    by (simp add: ValidatorType_match_def ValidatorAll_def cut strings_HasPrefix_def)
  have c3: "Match L (ValidatorTypeMatcher ''git.*'')
      (Some (c\<lparr>mc_ValidatorType := ''file.markdown''\<rparr>)) = Inr False"
    by (simp add: ValidatorType_match_def ValidatorAll_def cut strings_HasPrefix_def)
  have d: "Match L (ValidatorTypeMatcher (category @ ''.*'')) (Some (c\<lparr>mc_ValidatorType := t\<rparr>))
      = Inr (strings_HasPrefix t (category @ ''.''))"
    by (auto simp: ValidatorType_match_def ValidatorAll_def strings_CutSuffix_append
        strings_HasPrefix_def)
  from a a' b c1 c2 c3 d show ?thesis by blast
qed

subsection \<open>Pattern-backed matchers\<close>

text \<open>
  The repository and branch matchers match exactly when the git context is there, its
  field is not empty and the pattern matches the field.
\<close>

lemma repo_branch_matchers:
  "Match L (RepoPatternMatcher p) (Some c) =
     Inr (\<exists>g. mc_GitContext c = Some g \<and> gc_RepoRoot g \<noteq> [] \<and> Pattern_Match L p (gc_RepoRoot g))"
  "Match L (BranchPatternMatcher p) (Some c) =
     Inr (\<exists>g. mc_GitContext c = Some g \<and> gc_Branch g \<noteq> [] \<and> Pattern_Match L p (gc_Branch g))"
  by (auto split: option.splits)

text \<open>
  The file, content and command matchers hand their own field to the pattern when it is
  not empty; otherwise they hand the hook context's field to the pattern as it is, and
  are false only when there is no hook context.
\<close>

lemma file_content_command_matchers:
  "mc_FileContext c = Some f \<Longrightarrow> fc_Path f \<noteq> [] \<Longrightarrow>
     Match L (FilePatternMatcher p) (Some c) = Inr (Pattern_Match L p (fc_Path f))"
  "mc_FileContext c = Some f \<Longrightarrow> fc_Content f \<noteq> [] \<Longrightarrow>
     Match L (ContentPatternMatcher p) (Some c) = Inr (Pattern_Match L p (fc_Content f))"
  "mc_Command c \<noteq> [] \<Longrightarrow>
     Match L (CommandPatternMatcher p) (Some c) = Inr (Pattern_Match L p (mc_Command c))"
  "mc_FileContext c = None \<or> fc_Path (the (mc_FileContext c)) = [] \<Longrightarrow>
     Match L (FilePatternMatcher p) (Some c) =
       Inr (\<exists>h. mc_HookContext c = Some h \<and> Pattern_Match L p (hc_FilePath h))"
  "mc_FileContext c = None \<or> fc_Content (the (mc_FileContext c)) = [] \<Longrightarrow>
     Match L (ContentPatternMatcher p) (Some c) =
       Inr (\<exists>h. mc_HookContext c = Some h \<and> Pattern_Match L p (hc_Content h))"
  "mc_Command c = [] \<Longrightarrow>
     Match L (CommandPatternMatcher p) (Some c) =
       Inr (\<exists>h. mc_HookContext c = Some h \<and> Pattern_Match L p (hc_Command h))"
  by (auto split: option.splits)

text \<open>
  C7. The claim has a pattern-backed matcher match only when the field, or its hook-context
  fallback, is not empty. The fallback branches of the file, content and command matchers
  do not test for the empty string: on a Bash event, which has no file path and no
  content, the file and content matchers ask the pattern about the empty string, and so
  does the command matcher on an event without a command. A pattern that matches the
  empty string, such as the regular expression \<open>.*\<close>, then matches an event that has no
  such field.
\<close>

theorem pattern_matcher_fallback_on_empty_field:
  "Match L (FilePatternMatcher p) (Some bash_event_context) = Inr (Pattern_Match L p [])
   \<and> Match L (ContentPatternMatcher p) (Some bash_event_context) = Inr (Pattern_Match L p [])
   \<and> Match L (CommandPatternMatcher p)
        (Some (bash_event_context\<lparr>mc_HookContext := Some \<lparr>hc_EventType = ''PreToolUse'',
           hc_ToolName = ''Write'', hc_FilePath = ''main.go'', hc_Command = [],
           hc_Content = []\<rparr>\<rparr>))
       = Inr (Pattern_Match L p [])
   \<and> Match demo_library (FilePatternMatcher (RegexPattern ''.*'')) (Some bash_event_context)
       = Inr True"
  by (simp add: bash_event_context_def demo_library_def)

subsection \<open>Matchers on an absent context\<close>

text \<open>
  C10, as the claim states it, fails: the claim has every leaf matcher, the validator-type
  matcher among them, defined only on a context that is there. A validator-type matcher
  configured with \<open>*\<close> returns true before it reads the context, so it is defined on the
  absent context too.
\<close>

theorem ValidatorAll_matcher_on_nil_context:
  "Match demo_library (ValidatorTypeMatcher ''*'') None = Inr True
   \<and> Match demo_library (ValidatorTypeMatcher ''*'') None \<noteq> Inl NilPointerDereference"
  by (simp add: ValidatorAll_def)

text \<open>
  C10, amended. \<open>AlwaysMatcher\<close> and \<open>NeverMatcher\<close> return true and false on the absent
  context. On the absent context the remote, tool-type, event-type and the five
  pattern-backed matchers panic, and the validator-type matcher panics unless it is
  configured with \<open>*\<close>, in which case it returns true. On a context that is there no
  matcher panics.
\<close>

theorem Match_nil_context:
  "Match L AlwaysMatcher None = Inr True
   \<and> Match L NeverMatcher None = Inr False
   \<and> Match L (RemoteMatcher remote) None = Inl NilPointerDereference
   \<and> Match L (ToolTypeMatcher toolType) None = Inl NilPointerDereference
   \<and> Match L (EventTypeMatcher eventType) None = Inl NilPointerDereference
   \<and> Match L (RepoPatternMatcher p) None = Inl NilPointerDereference
   \<and> Match L (BranchPatternMatcher p) None = Inl NilPointerDereference
   \<and> Match L (FilePatternMatcher p) None = Inl NilPointerDereference
   \<and> Match L (ContentPatternMatcher p) None = Inl NilPointerDereference
   \<and> Match L (CommandPatternMatcher p) None = Inl NilPointerDereference
   \<and> Match L (ValidatorTypeMatcher v) None =
       (if v = ValidatorAll then Inr True else Inl NilPointerDereference)
   \<and> (\<exists>b. Match L m (Some c) = Inr b)"
  using Match_Some_total[of L m c] by simp

subsection \<open>The pattern cache\<close>

lemma Get_cached: "cached c t = Some r \<Longrightarrow> Get L c t = (r, c, [])"
  by (auto simp: cached_def Get_def split: option.splits)

lemma Get_slow_cached: "cached c t = Some r \<Longrightarrow> Get_slow L c t = (r, c, [])"
  by (auto simp: cached_def Get_slow_def split: option.splits)

lemma Get_stores: "Get L c t = (r, c1, calls) \<Longrightarrow> cached c1 t = Some r"
  by (auto simp: cached_def Get_def Get_slow_def split: option.splits sum.splits)

lemma Get_keeps: "cached c t = Some r \<Longrightarrow> Get L c u = (r', c1, calls) \<Longrightarrow> cached c1 t = Some r \<and> t \<notin> set calls"
  by (auto simp: cached_def Get_def Get_slow_def split: option.splits sum.splits if_splits)

lemma Get_all_keeps:
  "cached c t = Some r \<Longrightarrow> Get_all L c ts = (c2, calls) \<Longrightarrow> cached c2 t = Some r \<and> t \<notin> set calls"
proof (induction ts arbitrary: c c2 calls)
  case Nil
  then show ?case by simp
next
  case (Cons u ts)
  obtain r' c1 calls1 where g: "Get L c u = (r', c1, calls1)" by (cases "Get L c u") auto
  obtain c3 calls3 where ga: "Get_all L c1 ts = (c3, calls3)" by (cases "Get_all L c1 ts") auto
  from Get_keeps[OF Cons.prems(1) g] have k: "cached c1 t = Some r" "t \<notin> set calls1" by auto
  from Cons.IH[OF k(1) ga] have "cached c3 t = Some r" "t \<notin> set calls3" by auto
  with k g ga Cons.prems(2) show ?case by auto
qed

lemma Get_calls: "Get L c u = (r, c1, calls) \<Longrightarrow> (calls = [] \<or> calls = [u]) \<and> (\<forall>t\<in>set calls. cached c t = None)"
  by (auto simp: cached_def Get_def Get_slow_def split: option.splits sum.splits if_splits)

lemma Get_all_calls_distinct:
  "Get_all L c ts = (c2, calls) \<Longrightarrow> distinct calls \<and> (\<forall>t\<in>set calls. cached c t = None)"
proof (induction ts arbitrary: c c2 calls)
  case Nil
  then show ?case by simp
next
  case (Cons u ts)
  obtain r' c1 calls1 where g: "Get L c u = (r', c1, calls1)" by (cases "Get L c u") auto
  obtain c3 calls3 where ga: "Get_all L c1 ts = (c3, calls3)" by (cases "Get_all L c1 ts") auto
  from Cons.prems g ga have calls: "calls = calls1 @ calls3" by simp
  from Get_calls[OF g] have c1: "calls1 = [] \<or> calls1 = [u]" "\<forall>t\<in>set calls1. cached c t = None" by auto
  from Cons.IH[OF ga] have c3: "distinct calls3" "\<forall>t\<in>set calls3. cached c1 t = None" by auto
  have "u \<notin> set calls3" using c3(2) Get_stores[OF g] by auto
  moreover have "\<forall>t\<in>set calls3. cached c t = None"
  proof
    fix t assume t: "t \<in> set calls3"
    show "cached c t = None"
    proof (cases "cached c t")
      case None then show ?thesis .
    next
      case (Some r)
      from Get_keeps[OF Some g] c3(2) t show ?thesis by auto
    qed
  qed
  ultimately show ?case using calls c1 c3(1) by auto
qed

text \<open>
  The slow path alone does what \<open>Get\<close> does, whatever happened between the fast path's
  miss and the write lock: a run of calls interleaved at the lock boundaries is a run of
  slow paths and of reads that change nothing.
\<close>

lemma Get_slow_eq_Get: "Get_slow L c t = Get L c t"
  by (simp add: Get_def Get_slow_def split: option.splits)

text \<open>\<open>Clear\<close> forgets everything: the next \<open>Get\<close> of a text compiles it again.\<close>

lemma Get_after_Clear_cache:
  "Get L (Clear_cache c) t =
     (case CompilePattern L t of
        Inl err \<Rightarrow> (Inl err, \<lparr>patterns = Map.empty, errors = [t \<mapsto> err]\<rparr>, [t])
      | Inr pattern \<Rightarrow> (Inr pattern, \<lparr>patterns = [t \<mapsto> pattern], errors = Map.empty\<rparr>, [t]))"
  by (simp add: Get_def Get_slow_def Clear_cache_def split: sum.splits)

text \<open>
  A miss compiles, stores the compiler's result under the text and records the call; a
  hit (lemma \<open>Get_cached\<close>) changes nothing.
\<close>

lemma Get_miss:
  assumes "cached c t = None"
  shows "Get L c t =
          (CompilePattern L t,
           (case CompilePattern L t of
              Inl err \<Rightarrow> c\<lparr>errors := (errors c)(t \<mapsto> err)\<rparr>
            | Inr p \<Rightarrow> c\<lparr>patterns := (patterns c)(t \<mapsto> p)\<rparr>),
           [t])"
proof -
  from assms have n: "patterns c t = None" "errors c t = None"
    by (simp_all add: cached_def split: option.splits)
  show ?thesis
  proof (cases "CompilePattern L t")
    case (Inl err)
    with n show ?thesis by (simp add: Get_def Get_slow_def)
  next
    case (Inr p)
    with n show ?thesis by (simp add: Get_def Get_slow_def)
  qed
qed

lemma cached_store_error:
  "cached (c\<lparr>errors := (errors c)(t \<mapsto> err)\<rparr>) v =
     (if v = t then (case patterns c t of Some p \<Rightarrow> Some (Inr p) | None \<Rightarrow> Some (Inl err))
      else cached c v)"
  by (simp add: cached_def split: option.splits)

lemma cached_store_pattern:
  "cached (c\<lparr>patterns := (patterns c)(t \<mapsto> p)\<rparr>) v =
     (if v = t then Some (Inr p) else cached c v)"
  by (simp add: cached_def split: option.splits)

lemma Get_cached_after:
  assumes "Get L c u = (r, c1, calls)"
  shows "cached c1 v = None \<longleftrightarrow> cached c v = None \<and> v \<noteq> u"
proof (cases "cached c u")
  case (Some r0)
  from Get_cached[OF Some, of L] assms have "c1 = c" by simp
  with Some show ?thesis by auto
next
  case None
  from Get_miss[OF None, of L] assms
  have c1: "c1 = (case CompilePattern L u of
              Inl err \<Rightarrow> c\<lparr>errors := (errors c)(u \<mapsto> err)\<rparr>
            | Inr p \<Rightarrow> c\<lparr>patterns := (patterns c)(u \<mapsto> p)\<rparr>)" by simp
  show ?thesis
  proof (cases "CompilePattern L u")
    case (Inl err)
    with c1 None show ?thesis by (simp add: cached_store_error split: option.splits)
  next
    case (Inr p)
    with c1 None show ?thesis by (simp add: cached_store_pattern)
  qed
qed

lemma Get_all_calls_set:
  "Get_all L c ts = (c2, calls) \<Longrightarrow> set calls = {u \<in> set ts. cached c u = None}"
proof (induction ts arbitrary: c c2 calls)
  case Nil
  then show ?case by simp
next
  case (Cons u ts)
  obtain r' c1 calls1 where g: "Get L c u = (r', c1, calls1)" by (cases "Get L c u") auto
  obtain c3 calls3 where ga: "Get_all L c1 ts = (c3, calls3)" by (cases "Get_all L c1 ts") auto
  from Cons.prems g ga have calls: "calls = calls1 @ calls3" by simp
  from Cons.IH[OF ga] have "set calls3 = {v \<in> set ts. cached c1 v = None}" .
  then have c3: "set calls3 = {v \<in> set ts. cached c v = None \<and> v \<noteq> u}"
    using Get_cached_after[OF g] by simp
  show ?case
  proof (cases "cached c u")
    case None
    from Get_miss[OF None, of L] g have "calls1 = [u]" by (simp only: prod.inject)
    with calls have "set calls = insert u (set calls3)" by simp
    also have "\<dots> = insert u {v \<in> set ts. cached c v = None \<and> v \<noteq> u}" by (simp only: c3)
    also have "\<dots> = {v \<in> set (u # ts). cached c v = None}" using None by auto
    finally show ?thesis .
  next
    case (Some r0)
    from Get_cached[OF Some, of L] g have "calls1 = []" by (simp only: prod.inject)
    with calls have "set calls = set calls3" by simp
    also have "\<dots> = {v \<in> set ts. cached c v = None \<and> v \<noteq> u}" by (simp only: c3)
    also have "\<dots> = {v \<in> set (u # ts). cached c v = None}" using Some by auto
    finally show ?thesis .
  qed
qed

lemma Get_first_call:
  assumes g: "Get L c t = (r, c1, calls1)"
  shows "r = (case cached c t of Some r0 \<Rightarrow> r0 | None \<Rightarrow> CompilePattern L t)
      \<and> calls1 = (case cached c t of Some r0 \<Rightarrow> [] | None \<Rightarrow> [t])
      \<and> c1 = (case cached c t of
                Some r0 \<Rightarrow> c
              | None \<Rightarrow>
                  (case CompilePattern L t of
                     Inl err \<Rightarrow> c\<lparr>errors := (errors c)(t \<mapsto> err)\<rparr>
                   | Inr p \<Rightarrow> c\<lparr>patterns := (patterns c)(t \<mapsto> p)\<rparr>))"
proof (cases "cached c t")
  case None
  from Get_miss[OF None, of L] g
  have "r = CompilePattern L t" and "calls1 = [t]"
    and "c1 = (case CompilePattern L t of
              Inl err \<Rightarrow> c\<lparr>errors := (errors c)(t \<mapsto> err)\<rparr>
            | Inr p \<Rightarrow> c\<lparr>patterns := (patterns c)(t \<mapsto> p)\<rparr>)"
    by (simp_all only: prod.inject)
  then show ?thesis by (simp only: None option.case simp_thms)
next
  case (Some r0)
  from Get_cached[OF Some, of L] g have "r = r0" and "calls1 = []" and "c1 = c"
    by (simp_all only: prod.inject)
  then show ?thesis by (simp only: Some option.case simp_thms)
qed

text \<open>
  C3. \<open>Get\<close> of a text returns what the cache holds for it and calls the compiler only
  when the cache holds nothing for it: then it returns the compiler's result, stores
  exactly that under the text (a pattern among the patterns, an error among the errors)
  and records the one call. Either way the cache then holds what \<open>Get\<close> returned, and after
  any further \<open>Get\<close> calls on the cache (for any texts) \<open>Get\<close> of that text returns the same
  pattern or error, leaves the cache as it is and calls no compiler, whatever the compiler
  at hand would return; the slow path alone, entered after another caller stored the
  entry, does the same. In every run of \<open>Get\<close> calls the compiler is called once for each
  requested text that the cache did not hold, and never twice for a text. A pattern is a
  value here: that a later \<open>Get\<close> hands back the stored object and no new one shows in its
  making no compiler call and in its result not depending on the compiler.
\<close>

theorem PatternCache_Get_memoizes:
  "(case Get L c t of (r, c1, calls1) \<Rightarrow>
      cached c1 t = Some r
      \<and> r = (case cached c t of Some r0 \<Rightarrow> r0 | None \<Rightarrow> CompilePattern L t)
      \<and> calls1 = (case cached c t of Some r0 \<Rightarrow> [] | None \<Rightarrow> [t])
      \<and> c1 = (case cached c t of
                Some r0 \<Rightarrow> c
              | None \<Rightarrow>
                  (case CompilePattern L t of
                     Inl err \<Rightarrow> c\<lparr>errors := (errors c)(t \<mapsto> err)\<rparr>
                   | Inr p \<Rightarrow> c\<lparr>patterns := (patterns c)(t \<mapsto> p)\<rparr>))
      \<and> (case Get_all L c1 ts of (c2, calls2) \<Rightarrow>
            cached c2 t = Some r
            \<and> t \<notin> set calls2
            \<and> Get L' c2 t = (r, c2, [])
            \<and> Get_slow L' c2 t = (r, c2, [])))
   \<and> distinct (snd (Get_all L c us))
   \<and> set (snd (Get_all L c us)) = {u \<in> set us. cached c u = None}"
proof -
  obtain r c1 calls1 where g: "Get L c t = (r, c1, calls1)" by (cases "Get L c t") blast
  obtain c2 calls2 where ga: "Get_all L c1 ts = (c2, calls2)" by (cases "Get_all L c1 ts") blast
  have stored: "cached c1 t = Some r" using g by (rule Get_stores)
  note first = Get_first_call[OF g]
  from Get_all_keeps[OF stored ga] have k1: "cached c2 t = Some r" and k2: "t \<notin> set calls2"
    by blast+
  have l1: "Get L' c2 t = (r, c2, [])" using k1 by (rule Get_cached)
  have l2: "Get_slow L' c2 t = (r, c2, [])" using k1 by (rule Get_slow_cached)
  have run: "case Get_all L c1 ts of (c2, calls2) \<Rightarrow>
            cached c2 t = Some r
            \<and> t \<notin> set calls2
            \<and> Get L' c2 t = (r, c2, [])
            \<and> Get_slow L' c2 t = (r, c2, [])"
    unfolding ga prod.case using k1 k2 l1 l2 by (intro conjI)
  obtain c3 calls3 where gu: "Get_all L c us = (c3, calls3)" by (cases "Get_all L c us") blast
  have d: "distinct (snd (Get_all L c us))"
    unfolding gu snd_conv using Get_all_calls_distinct[OF gu] by (rule conjunct1)
  have s: "set (snd (Get_all L c us)) = {u \<in> set us. cached c u = None}"
    unfolding gu snd_conv using gu by (rule Get_all_calls_set)
  have "case Get L c t of (r, c1, calls1) \<Rightarrow>
      cached c1 t = Some r
      \<and> r = (case cached c t of Some r0 \<Rightarrow> r0 | None \<Rightarrow> CompilePattern L t)
      \<and> calls1 = (case cached c t of Some r0 \<Rightarrow> [] | None \<Rightarrow> [t])
      \<and> c1 = (case cached c t of
                Some r0 \<Rightarrow> c
              | None \<Rightarrow>
                  (case CompilePattern L t of
                     Inl err \<Rightarrow> c\<lparr>errors := (errors c)(t \<mapsto> err)\<rparr>
                   | Inr p \<Rightarrow> c\<lparr>patterns := (patterns c)(t \<mapsto> p)\<rparr>))
      \<and> (case Get_all L c1 ts of (c2, calls2) \<Rightarrow>
            cached c2 t = Some r
            \<and> t \<notin> set calls2
            \<and> Get L' c2 t = (r, c2, [])
            \<and> Get_slow L' c2 t = (r, c2, []))"
    unfolding g prod.case
    using stored first run by (intro conjI) (erule conjunct1 conjunct2 | assumption | blast)+
  then show ?thesis using d s by (intro conjI)
qed

subsection \<open>Sorting\<close>

lemma rule_cmp_le:
  "rule_cmp a b \<le> 0 \<longleftrightarrow>
     rule_before a b
     \<or> (rule_Priority (cr_Rule a) = rule_Priority (cr_Rule b)
        \<and> rule_Name (cr_Rule a) = rule_Name (cr_Rule b))"
  by (auto simp: rule_cmp_def rule_before_def cmp_Compare_def Let_def)

lemma rule_cmp_trans: "rule_cmp a b \<le> 0 \<Longrightarrow> rule_cmp b c \<le> 0 \<Longrightarrow> rule_cmp a c \<le> 0"
  unfolding rule_cmp_le by (auto simp: rule_before_def)

lemma rule_cmp_total: "\<not> rule_cmp a b \<le> 0 \<Longrightarrow> rule_cmp b a \<le> 0"
  unfolding rule_cmp_le by (auto simp: rule_before_def)

lemma set_SortFunc_insert: "set (SortFunc_insert cmp x ys) = insert x (set ys)"
  by (induction ys) auto

lemma mset_SortFunc_insert: "mset (SortFunc_insert cmp x ys) = add_mset x (mset ys)"
  by (induction ys) auto

lemma mset_SortFunc: "mset (SortFunc cmp xs) = mset xs"
  by (induction xs) (auto simp: mset_SortFunc_insert)

lemma sorted_SortFunc_insert:
  "sorted_wrt (\<lambda>a b. rule_cmp a b \<le> 0) ys \<Longrightarrow>
   sorted_wrt (\<lambda>a b. rule_cmp a b \<le> 0) (SortFunc_insert rule_cmp x ys)"
proof (induction ys)
  case Nil
  then show ?case by simp
next
  case (Cons y ys)
  show ?case
  proof (cases "rule_cmp y x \<le> 0")
    case True
    with Cons show ?thesis by (auto simp: set_SortFunc_insert)
  next
    case False
    then have xy: "rule_cmp x y \<le> 0" by (rule rule_cmp_total)
    have "\<forall>z\<in>set ys. rule_cmp x z \<le> 0"
      using Cons.prems xy by (auto intro: rule_cmp_trans)
    with False xy Cons.prems show ?thesis by auto
  qed
qed

lemma sorted_SortFunc: "sorted_wrt (\<lambda>a b. rule_cmp a b \<le> 0) (SortFunc rule_cmp xs)"
  by (induction xs) (auto intro: sorted_SortFunc_insert)

lemma rule_names_sortRulesLocked:
  "mset (rule_names (sortRulesLocked rs)) = mset (rule_names rs)"
  unfolding rule_names_def sortRulesLocked_def
  by (metis mset_SortFunc mset_map)

lemma set_sortRulesLocked: "set (sortRulesLocked rs) = set rs"
  unfolding sortRulesLocked_def by (metis mset_SortFunc set_mset_mset)

lemma length_sortRulesLocked: "length (sortRulesLocked rs) = length rs"
  unfolding sortRulesLocked_def by (metis mset_SortFunc size_mset)

lemma distinct_sortRulesLocked:
  "distinct (rule_names (sortRulesLocked rs)) = distinct (rule_names rs)"
  using rule_names_sortRulesLocked by (metis mset_eq_imp_distinct_iff)

lemma strict_of_distinct:
  "distinct (rule_names rs) \<Longrightarrow> sorted_wrt (\<lambda>a b. rule_cmp a b \<le> 0) rs \<Longrightarrow> sorted_wrt rule_before rs"
proof (induction rs)
  case Nil
  then show ?case by simp
next
  case (Cons r rs)
  have "\<forall>x\<in>set rs. rule_before r x"
  proof
    fix x assume x: "x \<in> set rs"
    with Cons.prems have "rule_cmp r x \<le> 0" by simp
    moreover from x Cons.prems(1) have "rule_Name (cr_Rule r) \<noteq> rule_Name (cr_Rule x)"
      by (auto simp: rule_names_def)
    ultimately show "rule_before r x" by (simp add: rule_cmp_le)
  qed
  with Cons show ?case by (simp add: rule_names_def)
qed

lemma sortRulesLocked_inv:
  assumes "distinct (rule_names rs)" and "\<forall>cr\<in>set rs. rule_ok cr"
  shows "registry_inv (sortRulesLocked rs)"
proof -
  have d: "distinct (rule_names (sortRulesLocked rs))"
    using assms(1) by (simp add: distinct_sortRulesLocked)
  have "sorted_wrt (\<lambda>a b. rule_cmp a b \<le> 0) (sortRulesLocked rs)"
    by (simp add: sortRulesLocked_def sorted_SortFunc)
  with d have "sorted_wrt rule_before (sortRulesLocked rs)" by (rule strict_of_distinct)
  with d assms(2) show ?thesis by (simp add: registry_inv_def set_sortRulesLocked)
qed

text \<open>
  A list of rules has at most one arrangement in the order \<open>rule_before\<close>, so on rules
  of pairwise different names every sorting algorithm returns what \<open>sortRulesLocked\<close>
  returns.
\<close>

lemma rule_before_irrefl: "\<not> rule_before a a"
  by (auto simp: rule_before_def)

lemma rule_before_trans: "rule_before a b \<Longrightarrow> rule_before b c \<Longrightarrow> rule_before a c"
  by (auto simp: rule_before_def)

lemma rule_before_asym: "rule_before a b \<Longrightarrow> \<not> rule_before b a"
  by (auto simp: rule_before_def)

lemma sorted_permutation_unique:
  "sorted_wrt rule_before xs \<Longrightarrow> sorted_wrt rule_before ys \<Longrightarrow> mset xs = mset ys \<Longrightarrow> xs = ys"
proof (induction xs arbitrary: ys)
  case Nil
  then show ?case by simp
next
  case (Cons x xs)
  from Cons.prems(3) obtain y ys' where ys: "ys = y # ys'" by (cases ys) auto
  have "x = y"
  proof (rule ccontr)
    assume ne: "x \<noteq> y"
    from Cons.prems(3) ys ne have "x \<in> set ys'"
      by (metis list.set_intros(1) set_ConsD mset_eq_setD)
    with Cons.prems(2) ys have 1: "rule_before y x" by simp
    from Cons.prems(3) ys ne have "y \<in> set xs"
      by (metis list.set_intros(1) set_ConsD mset_eq_setD)
    with Cons.prems(1) have "rule_before x y" by simp
    with 1 show False using rule_before_asym by blast
  qed
  with Cons ys show ?case by auto
qed


lemma sortRulesLocked_any_algorithm:
  assumes "distinct (rule_names xs)" and "mset ys = mset xs"
    and "sorted_wrt (\<lambda>a b. rule_cmp a b \<le> 0) ys"
  shows "ys = sortRulesLocked xs"
proof -
  have "mset (rule_names ys) = mset (rule_names xs)"
    unfolding rule_names_def using assms(2) by (metis mset_map)
  then have "distinct (rule_names ys)" using assms(1) by (metis mset_eq_imp_distinct_iff)
  then have 1: "sorted_wrt rule_before ys" using assms(3) by (rule strict_of_distinct)
  have 2: "sorted_wrt rule_before (sortRulesLocked xs)"
    using sortRulesLocked_inv[of xs] assms(1)
    by (metis distinct_sortRulesLocked sortRulesLocked_def sorted_SortFunc strict_of_distinct)
  have 3: "mset ys = mset (sortRulesLocked xs)"
    using assms(2) by (simp add: sortRulesLocked_def mset_SortFunc)
  from 1 2 3 show ?thesis by (rule sorted_permutation_unique)
qed

subsection \<open>The registry's operations keep its state\<close>

lemma rule_names_Cons: "rule_names (x # xs) = rule_Name (cr_Rule x) # rule_names xs"
  by (simp add: rule_names_def)

lemma Add_replace_Some:
  "Add_replace rs (rule_Name (cr_Rule new)) new = Some rs' \<Longrightarrow>
   rule_names rs' = rule_names rs \<and> new \<in> set rs' \<and> set rs' \<subseteq> insert new (set rs)
   \<and> rule_Name (cr_Rule new) \<in> set (rule_names rs) \<and> length rs' = length rs"
proof (induction rs arbitrary: rs')
  case Nil
  then show ?case by simp
next
  case (Cons r rs)
  show ?case
  proof (cases "rule_Name (cr_Rule r) = rule_Name (cr_Rule new)")
    case True
    with Cons.prems show ?thesis by (auto simp: rule_names_def)
  next
    case False
    with Cons.prems obtain rest' where r: "Add_replace rs (rule_Name (cr_Rule new)) new = Some rest'"
      and rs': "rs' = r # rest'" by (auto split: option.splits)
    from Cons.IH[OF r] rs' show ?thesis by (auto simp: rule_names_def)
  qed
qed

lemma Add_replace_None:
  "Add_replace rs name new = None \<Longrightarrow> name \<notin> set (rule_names rs)"
  by (induction rs) (auto simp: rule_names_def split: if_splits option.splits)

lemma Remove_loop_Some:
  "Remove_loop rs name = Some rs' \<Longrightarrow>
   \<exists>pre x post. rs = pre @ x # post \<and> rs' = pre @ post \<and> rule_Name (cr_Rule x) = name
     \<and> name \<notin> set (rule_names pre)"
proof (induction rs arbitrary: rs')
  case Nil
  then show ?case by simp
next
  case (Cons r rs)
  show ?case
  proof (cases "rule_Name (cr_Rule r) = name")
    case True
    with Cons.prems have "r # rs = [] @ r # rs' \<and> rs' = [] @ rs'" by simp
    with True show ?thesis unfolding rule_names_def by (metis list.set(1) empty_iff list.simps(8))
  next
    case False
    with Cons.prems obtain rest' where r: "Remove_loop rs name = Some rest'"
      and rs': "rs' = r # rest'" by (auto split: option.splits)
    from Cons.IH[OF r] obtain pre x post where
      "rs = pre @ x # post" "rest' = pre @ post" "rule_Name (cr_Rule x) = name"
      "name \<notin> set (rule_names pre)" by blast
    with rs' False have "r # rs = (r # pre) @ x # post \<and> rs' = (r # pre) @ post
       \<and> rule_Name (cr_Rule x) = name \<and> name \<notin> set (rule_names (r # pre))"
      by (auto simp: rule_names_def)
    then show ?thesis by blast
  qed
qed

lemma Remove_loop_None:
  "Remove_loop rs name = None \<Longrightarrow> name \<notin> set (rule_names rs)"
  by (induction rs) (auto simp: rule_names_def split: if_splits option.splits)

lemma registry_inv_remove:
  "registry_inv (pre @ x # post) \<Longrightarrow> registry_inv (pre @ post)"
  by (auto simp: registry_inv_def rule_names_def sorted_wrt_append)

lemma index_ok_append:
  assumes "index_ok existing rs"
  shows "index_ok (existing(rule_Name (cr_Rule x) \<mapsto> length rs)) (rs @ [x])"
  unfolding index_ok_def
proof (intro conjI allI impI ballI)
  fix n i assume e: "(existing(rule_Name (cr_Rule x) \<mapsto> length rs)) n = Some i"
  show "i < length (rs @ [x])"
    using e assms by (auto simp: index_ok_def less_Suc_eq split: if_splits)
  show "rule_Name (cr_Rule ((rs @ [x]) ! i)) = n"
    using e assms by (auto simp: index_ok_def nth_append split: if_splits)
next
  fix cr assume "cr \<in> set (rs @ [x])"
  then show "(existing(rule_Name (cr_Rule x) \<mapsto> length rs)) (rule_Name (cr_Rule cr)) \<noteq> None"
    using assms by (auto simp: index_ok_def)
qed

lemma Merge_index_ok:
  "index_ok existing pre \<Longrightarrow> index_ok (Merge_index rest (length pre) existing) (pre @ rest)"
proof (induction rest arbitrary: pre existing)
  case Nil
  then show ?case by simp
next
  case (Cons x rest)
  from index_ok_append[OF Cons.prems, of x]
  have "index_ok (Merge_index rest (length (pre @ [x])) (existing(rule_Name (cr_Rule x) \<mapsto> length pre)))
          ((pre @ [x]) @ rest)"
    by (rule Cons.IH)
  then show ?case by simp
qed

lemma Merge_index_ok_initial: "index_ok (Merge_index rs 0 Map.empty) rs"
  using Merge_index_ok[of Map.empty "[]" rs] by (simp add: index_ok_def)

lemma Merge_loop_total:
  "index_ok existing rs \<Longrightarrow>
   \<exists>rs'. Merge_loop src rs existing = Inr rs'
     \<and> (distinct (rule_names rs) \<longrightarrow> distinct (rule_names rs'))
     \<and> set rs' \<subseteq> set rs \<union> set src
     \<and> set (rule_names rs') = set (rule_names rs) \<union> set (rule_names src)"
proof (induction src arbitrary: rs existing)
  case Nil
  then show ?case by (simp add: rule_names_def)
next
  case (Cons s src)
  let ?n = "rule_Name (cr_Rule s)"
  show ?case
  proof (cases "existing ?n")
    case None
    with Cons.prems have notin: "?n \<notin> set (rule_names rs)"
      by (auto simp: index_ok_def rule_names_def)
    from index_ok_append[OF Cons.prems, of s]
    obtain rs' where r: "Merge_loop src (rs @ [s]) (existing(?n \<mapsto> length rs)) = Inr rs'"
      and d: "distinct (rule_names (rs @ [s])) \<longrightarrow> distinct (rule_names rs')"
      and sub: "set rs' \<subseteq> set (rs @ [s]) \<union> set src"
      and nm: "set (rule_names rs') = set (rule_names (rs @ [s])) \<union> set (rule_names src)"
      using Cons.IH by blast
    from None r have "Merge_loop (s # src) rs existing = Inr rs'" by simp
    moreover from d notin have "distinct (rule_names rs) \<longrightarrow> distinct (rule_names rs')"
      by (simp add: rule_names_def)
    moreover from sub have "set rs' \<subseteq> set rs \<union> set (s # src)" by auto
    moreover from nm have "set (rule_names rs') = set (rule_names rs) \<union> set (rule_names (s # src))"
      by (auto simp: rule_names_def)
    ultimately show ?thesis by blast
  next
    case (Some idx)
    with Cons.prems have idx: "idx < length rs" "rule_Name (cr_Rule (rs ! idx)) = ?n"
      by (auto simp: index_ok_def)
    have names: "rule_names (rs[idx := s]) = rule_names rs"
      using idx unfolding rule_names_def by (simp add: map_update list_update_same_conv)
    have "index_ok existing (rs[idx := s])"
      unfolding index_ok_def
    proof (intro conjI allI impI ballI)
      fix n i assume e: "existing n = Some i"
      with Cons.prems have i: "i < length rs" "rule_Name (cr_Rule (rs ! i)) = n"
        by (auto simp: index_ok_def)
      then show "i < length (rs[idx := s])" by simp
      from i idx show "rule_Name (cr_Rule (rs[idx := s] ! i)) = n"
        by (cases "i = idx") auto
    next
      fix cr assume "cr \<in> set (rs[idx := s])"
      then have "cr = s \<or> cr \<in> set rs" using set_update_subset_insert by fastforce
      with Cons.prems Some show "existing (rule_Name (cr_Rule cr)) \<noteq> None"
        by (auto simp: index_ok_def)
    qed
    then obtain rs' where r: "Merge_loop src (rs[idx := s]) existing = Inr rs'"
      and d: "distinct (rule_names (rs[idx := s])) \<longrightarrow> distinct (rule_names rs')"
      and sub: "set rs' \<subseteq> set (rs[idx := s]) \<union> set src"
      and nm: "set (rule_names rs') = set (rule_names (rs[idx := s])) \<union> set (rule_names src)"
      using Cons.IH by blast
    from Some idx r have "Merge_loop (s # src) rs existing = Inr rs'" by simp
    moreover from d names have "distinct (rule_names rs) \<longrightarrow> distinct (rule_names rs')" by simp
    moreover have "set (rs[idx := s]) \<subseteq> insert s (set rs)" by (rule set_update_subset_insert)
    with sub have "set rs' \<subseteq> set rs \<union> set (s # src)" by auto
    moreover have "?n \<in> set (rule_names rs)"
    proof -
      have "rs ! idx \<in> set rs" using idx(1) by simp
      then have "rule_Name (cr_Rule (rs ! idx)) \<in> set (rule_names rs)"
        unfolding rule_names_def by simp
      with idx(2) show ?thesis by simp
    qed
    with nm names have "set (rule_names rs') = set (rule_names rs) \<union> set (rule_names (s # src))"
      by (auto simp: rule_names_Cons)
    ultimately show ?thesis by blast
  qed
qed

lemma Merge_total: "\<exists>r'. Merge r source = Inr r'"
proof (cases source)
  case None
  then show ?thesis by (simp add: Merge_def)
next
  case (Some s)
  from Merge_loop_total[OF Merge_index_ok_initial, of "rules s" "rules r"]
  obtain rs' where "Merge_loop (rules s) (rules r) (Merge_index (rules r) 0 Map.empty) = Inr rs'"
    by blast
  with Some show ?thesis by (simp add: Merge_def)
qed

lemma Merge_inv:
  assumes "registry_inv (rules r)" and "registry_inv (rules s)" and "Merge r (Some s) = Inr r'"
  shows "registry_inv (rules r')"
proof -
  from Merge_loop_total[OF Merge_index_ok_initial, of "rules s" "rules r"]
  obtain rs' where m: "Merge_loop (rules s) (rules r) (Merge_index (rules r) 0 Map.empty) = Inr rs'"
    and d: "distinct (rule_names (rules r)) \<longrightarrow> distinct (rule_names rs')"
    and sub: "set rs' \<subseteq> set (rules r) \<union> set (rules s)"
    by blast
  from m assms(3) have r': "rules r' = sortRulesLocked rs'" by (auto simp: Merge_def)
  from d assms(1) have "distinct (rule_names rs')" by (simp add: registry_inv_def)
  moreover from sub assms(1,2) have "\<forall>cr\<in>set rs'. rule_ok cr" by (auto simp: registry_inv_def)
  ultimately show ?thesis unfolding r' by (rule sortRulesLocked_inv)
qed

lemma Add_inv:
  assumes "registry_inv (rules r)" and "Add L c r rule = (res, c', r')"
  shows "registry_inv (rules r')"
proof (cases res)
  case (Some err)
  with assms(2) have "r' = r"
    by (auto simp: Add_def Let_def split: option.splits if_splits sum.splits prod.splits)
  with assms(1) show ?thesis by simp
next
  case None
  with assms(2) obtain rl built c0 where rule: "rule = Some rl"
    and nm: "rule_Name rl \<noteq> []" and act: "rule_Action rl \<noteq> None"
    and b: "BuildMatcher L c (rule_Match rl) = (Inr built, c0)"
    by (auto simp: Add_def Let_def split: option.splits if_splits sum.splits prod.splits)
  define new where "new = \<lparr>cr_Rule = rl, cr_Matcher = (case built of None \<Rightarrow> AlwaysMatcher | Some m \<Rightarrow> m)\<rparr>"
  have ok: "rule_ok new" using nm act by (simp add: rule_ok_def new_def)
  have name: "rule_Name (cr_Rule new) = rule_Name rl" by (simp add: new_def)
  show ?thesis
  proof (cases "Add_replace (rules r) (rule_Name rl) new")
    case None
    with assms(2) rule nm act b have r': "rules r' = sortRulesLocked (rules r @ [new])"
      by (auto simp: Add_def Let_def new_def)
    from None have "rule_Name rl \<notin> set (rule_names (rules r))" by (rule Add_replace_None)
    with assms(1) name have "distinct (rule_names (rules r @ [new]))"
      by (simp add: registry_inv_def rule_names_def)
    moreover from assms(1) ok have "\<forall>cr\<in>set (rules r @ [new]). rule_ok cr"
      by (auto simp: registry_inv_def)
    ultimately show ?thesis unfolding r' by (rule sortRulesLocked_inv)
  next
    case (Some rs)
    with assms(2) rule nm act b have r': "rules r' = sortRulesLocked rs"
      by (auto simp: Add_def Let_def new_def)
    from Some name have "Add_replace (rules r) (rule_Name (cr_Rule new)) new = Some rs" by simp
    from Add_replace_Some[OF this]
    have n: "rule_names rs = rule_names (rules r)" and sub: "set rs \<subseteq> insert new (set (rules r))"
      by auto
    from n assms(1) have "distinct (rule_names rs)" by (simp add: registry_inv_def)
    moreover from sub assms(1) ok have "\<forall>cr\<in>set rs. rule_ok cr" by (auto simp: registry_inv_def)
    ultimately show ?thesis unfolding r' by (rule sortRulesLocked_inv)
  qed
qed

lemma Remove_inv:
  assumes "registry_inv (rules r)" and "Remove r name = (found, r')"
  shows "registry_inv (rules r')"
proof (cases "Remove_loop (rules r) name")
  case None
  with assms show ?thesis by (auto simp: Remove_def)
next
  case (Some rs)
  from Remove_loop_Some[OF Some] obtain pre x post where
    "rules r = pre @ x # post" "rs = pre @ post" by blast
  with assms(1) have "registry_inv rs" using registry_inv_remove by simp
  with Some assms(2) show ?thesis by (auto simp: Remove_def)
qed

lemma reachable_inv: "reachable L r \<Longrightarrow> registry_inv (rules r)"
proof (induction rule: reachable.induct)
  case reachable_New
  show ?case by (simp add: NewRegistry_def registry_inv_def rule_names_def)
next
  case (reachable_Add r c rule res c' r')
  then show ?case using Add_inv by blast
next
  case (reachable_Remove r name found r')
  then show ?case using Remove_inv by blast
next
  case (reachable_Clear r)
  show ?case by (simp add: Clear_def registry_inv_def rule_names_def)
next
  case (reachable_Merge r s r')
  then show ?case using Merge_inv by blast
qed


subsection \<open>Failure of \<open>Add\<close>\<close>

lemma Add_error_iff:

  "fst (Add L c r rule) \<noteq> None \<longleftrightarrow>
     (case rule of None \<Rightarrow> True
      | Some rl \<Rightarrow> rule_Name rl = [] \<or> rule_Action rl = None \<or> isl (fst (BuildMatcher L c (rule_Match rl))))"
  by (auto simp: Add_def Let_def split: option.splits if_splits sum.splits prod.splits)

text \<open>
  C5. When \<open>Add\<close> returns an error, the registry is what it was before the call. (The
  default pattern cache may have grown: a pattern that failed to compile is remembered
  there.)
\<close>

theorem Add_error_leaves_registry:
  "Add L c r rule = (Some err, c', r') \<Longrightarrow> r' = r"
  by (auto simp: Add_def Let_def split: option.splits if_splits sum.splits prod.splits)

theorem Add_error_leaves_registry_witness:
  "fst (Add demo_library NewPatternCache (registry_of demo_library [rule_R2, rule_R1]) (Some rule_invalid_pattern))
     = Some ''failed to compile rule matcher: missing closing ]''
   \<and> snd (snd (Add demo_library NewPatternCache (registry_of demo_library [rule_R2, rule_R1]) (Some rule_invalid_pattern)))
     = registry_of demo_library [rule_R2, rule_R1]"
proof -
  let ?res = "Add demo_library NewPatternCache (registry_of demo_library [rule_R2, rule_R1]) (Some rule_invalid_pattern)"
  have e: "fst ?res = Some ''failed to compile rule matcher: missing closing ]''" by code_simp
  then have "?res = (Some ''failed to compile rule matcher: missing closing ]'', fst (snd ?res), snd (snd ?res))"
    by (metis prod.collapse)
  from Add_error_leaves_registry[OF this] e show ?thesis by simp
qed

subsection \<open>The registry keeps names unique and rules sorted\<close>

lemma AddAll_reachable:
  "reachable L r \<Longrightarrow> reachable L (snd (snd (AddAll L c r rs)))"
proof (induction rs arbitrary: c r)
  case Nil
  then show ?case by simp
next
  case (Cons rule rs)
  obtain res c' r' where a: "Add L c r rule = (res, c', r')" by (cases "Add L c r rule") auto
  from Cons.prems a have r': "reachable L r'" by (rule reachable_Add)
  show ?case
  proof (cases res)
    case None
    with a Cons.IH[OF r', of c'] show ?thesis by simp
  next
    case (Some err)
    with a r' show ?thesis by simp
  qed
qed

lemma registry_of_reachable: "reachable L (registry_of L rs)"
  unfolding registry_of_def using reachable_New by (rule AddAll_reachable)

lemma Get_rule_loop_distinct:
  "distinct (rule_names rs) \<Longrightarrow> x \<in> set rs \<Longrightarrow> Get_rule_loop rs (rule_Name (cr_Rule x)) = Some x"
  by (induction rs) (auto simp: rule_names_def)

lemma Add_replace_others:
  "Add_replace rs (rule_Name (cr_Rule new)) new = Some rs' \<Longrightarrow>
   {cr \<in> set rs'. rule_Name (cr_Rule cr) \<noteq> rule_Name (cr_Rule new)}
     = {cr \<in> set rs. rule_Name (cr_Rule cr) \<noteq> rule_Name (cr_Rule new)}"
proof (induction rs arbitrary: rs')
  case Nil
  then show ?case by simp
next
  case (Cons r rs)
  show ?case
  proof (cases "rule_Name (cr_Rule r) = rule_Name (cr_Rule new)")
    case True
    with Cons.prems show ?thesis by auto
  next
    case False
    with Cons.prems obtain rest' where r: "Add_replace rs (rule_Name (cr_Rule new)) new = Some rest'"
      and rs': "rs' = r # rest'" by (auto split: option.splits)
    from Cons.IH[OF r] rs' show ?thesis by auto
  qed
qed

lemma Add_success:
  assumes "Add L c r (Some rl) = (None, c', r')"
  shows "\<exists>new rs0. cr_Rule new = rl \<and> rules r' = sortRulesLocked rs0
           \<and> (Add_replace (rules r) (rule_Name rl) new = Some rs0
               \<or> (Add_replace (rules r) (rule_Name rl) new = None \<and> rs0 = rules r @ [new]))"
proof -
  from assms obtain built c0 where b: "BuildMatcher L c (rule_Match rl) = (Inr built, c0)"
    and nm: "rule_Name rl \<noteq> []" and act: "rule_Action rl \<noteq> None"
    by (auto simp: Add_def Let_def split: option.splits if_splits sum.splits prod.splits)
  define new where "new = \<lparr>cr_Rule = rl, cr_Matcher = (case built of None \<Rightarrow> AlwaysMatcher | Some m \<Rightarrow> m)\<rparr>"
  show ?thesis
  proof (cases "Add_replace (rules r) (rule_Name rl) new")
    case None
    with assms nm act b have "rules r' = sortRulesLocked (rules r @ [new])"
      by (auto simp: Add_def Let_def new_def)
    with None show ?thesis by (intro exI[of _ new] exI[of _ "rules r @ [new]"]) (simp add: new_def)
  next
    case (Some rs)
    with assms nm act b have "rules r' = sortRulesLocked rs"
      by (auto simp: Add_def Let_def new_def)
    with Some show ?thesis by (intro exI[of _ new] exI[of _ rs]) (simp add: new_def)
  qed
qed

lemma Add_overwrites:
  assumes inv: "registry_inv (rules r)" and add: "Add L c r (Some rl) = (None, c', r')"
  shows "(\<exists>m. Get_rule r' (rule_Name rl) = Some \<lparr>cr_Rule = rl, cr_Matcher = m\<rparr>)
         \<and> set (rule_names (rules r')) = insert (rule_Name rl) (set (rule_names (rules r)))
         \<and> Size r' = (if rule_Name rl \<in> set (rule_names (rules r)) then Size r else Size r + 1)
         \<and> {cr \<in> set (rules r'). rule_Name (cr_Rule cr) \<noteq> rule_Name rl}
             = {cr \<in> set (rules r). rule_Name (cr_Rule cr) \<noteq> rule_Name rl}"
proof -
  from Add_success[OF add] obtain new rs0 where new: "cr_Rule new = rl"
    and r': "rules r' = sortRulesLocked rs0"
    and rs0: "Add_replace (rules r) (rule_Name rl) new = Some rs0
               \<or> (Add_replace (rules r) (rule_Name rl) new = None \<and> rs0 = rules r @ [new])"
    by blast
  have inv': "registry_inv (rules r')" using inv add by (rule Add_inv)
  have facts: "new \<in> set rs0
      \<and> set (rule_names rs0) = insert (rule_Name rl) (set (rule_names (rules r)))
      \<and> length rs0 = (if rule_Name rl \<in> set (rule_names (rules r)) then length (rules r) else length (rules r) + 1)
      \<and> {cr \<in> set rs0. rule_Name (cr_Rule cr) \<noteq> rule_Name rl}
             = {cr \<in> set (rules r). rule_Name (cr_Rule cr) \<noteq> rule_Name rl}"
    using rs0
  proof
    assume s: "Add_replace (rules r) (rule_Name rl) new = Some rs0"
    then have s': "Add_replace (rules r) (rule_Name (cr_Rule new)) new = Some rs0" using new by simp
    from Add_replace_Some[OF s'] Add_replace_others[OF s'] new show ?thesis by auto
  next
    assume n: "Add_replace (rules r) (rule_Name rl) new = None \<and> rs0 = rules r @ [new]"
    then have "rule_Name rl \<notin> set (rule_names (rules r))" using Add_replace_None by blast
    with n new show ?thesis by (auto simp: rule_names_def)
  qed
  have "new \<in> set (rules r')" using facts r' by (simp add: set_sortRulesLocked)
  with inv' have "Get_rule_loop (rules r') (rule_Name (cr_Rule new)) = Some new"
    using Get_rule_loop_distinct by (simp add: registry_inv_def)
  with new have "Get_rule r' (rule_Name rl) = Some \<lparr>cr_Rule = rl, cr_Matcher = cr_Matcher new\<rparr>"
    by (cases new) (simp add: Get_rule_def)
  then have 1: "\<exists>m. Get_rule r' (rule_Name rl) = Some \<lparr>cr_Rule = rl, cr_Matcher = m\<rparr>" by blast
  have "set (rule_names (rules r')) = set (rule_names rs0)"
    unfolding r' using rule_names_sortRulesLocked by (metis set_mset_mset)
  with facts have 2: "set (rule_names (rules r')) = insert (rule_Name rl) (set (rule_names (rules r)))"
    by simp
  from facts have 3: "Size r' = (if rule_Name rl \<in> set (rule_names (rules r)) then Size r else Size r + 1)"
    by (simp add: Size_def r' length_sortRulesLocked)
  from facts have 4: "{cr \<in> set (rules r'). rule_Name (cr_Rule cr) \<noteq> rule_Name rl}
             = {cr \<in> set (rules r). rule_Name (cr_Rule cr) \<noteq> rule_Name rl}"
    by (simp add: r' set_sortRulesLocked)
  from 1 2 3 4 show ?thesis by blast
qed

lemma overwrite_example:
  "rules (registry_of L [example_rule ''r1'' 10 True None ActionBlock [],
                         example_rule ''r1'' 5 True None ActionWarn []])
     = [\<lparr>cr_Rule = example_rule ''r1'' 5 True None ActionWarn [], cr_Matcher = AlwaysMatcher\<rparr>]"
  by (simp add: registry_of_def Add_def BuildMatcher_def NewRegistry_def example_rule_def
      sortRulesLocked_def)

lemma sort_example:
  "rule_names (rules (registry_of L [example_rule ''b'' 10 True None ActionBlock [],
                         example_rule ''a'' 10 True None ActionBlock [],
                         example_rule ''c'' 20 True None ActionBlock []]))
     = [''c'', ''a'', ''b'']"
  by code_simp

text \<open>
  C4. After every sequence of \<open>Add\<close>, \<open>Remove\<close>, \<open>Merge\<close> and \<open>Clear\<close> from the empty registry
  the names of the stored rules are pairwise different and the rules are in the order
  descending priority, then ascending name. A successful \<open>Add\<close> stores the rule under its
  name, leaves every rule of another name as it is, and changes the size only when the
  name is new. Adding a rule \<open>r1\<close> of priority 10 and then a rule \<open>r1\<close> of priority 5 leaves
  exactly the second one.
\<close>

theorem Registry_names_unique_and_sorted:
  assumes "reachable L r"
  shows "distinct (rule_names (rules r))
         \<and> sorted_wrt rule_before (rules r)
         \<and> (Add L c r (Some rl) = (None, c', r') \<longrightarrow>
              (\<exists>m. Get_rule r' (rule_Name rl) = Some \<lparr>cr_Rule = rl, cr_Matcher = m\<rparr>)
              \<and> set (rule_names (rules r')) = insert (rule_Name rl) (set (rule_names (rules r)))
              \<and> Size r' = (if rule_Name rl \<in> set (rule_names (rules r)) then Size r else Size r + 1)
              \<and> {cr \<in> set (rules r'). rule_Name (cr_Rule cr) \<noteq> rule_Name rl}
                  = {cr \<in> set (rules r). rule_Name (cr_Rule cr) \<noteq> rule_Name rl})
         \<and> rules (registry_of L [example_rule ''r1'' 10 True None ActionBlock [],
                                 example_rule ''r1'' 5 True None ActionWarn []])
             = [\<lparr>cr_Rule = example_rule ''r1'' 5 True None ActionWarn [], cr_Matcher = AlwaysMatcher\<rparr>]"
proof -
  from assms have inv: "registry_inv (rules r)" by (rule reachable_inv)
  then have 1: "distinct (rule_names (rules r))" and 2: "sorted_wrt rule_before (rules r)"
    by (simp_all add: registry_inv_def)
  from Add_overwrites[OF inv] have 3: "Add L c r (Some rl) = (None, c', r') \<longrightarrow>
              (\<exists>m. Get_rule r' (rule_Name rl) = Some \<lparr>cr_Rule = rl, cr_Matcher = m\<rparr>)
              \<and> set (rule_names (rules r')) = insert (rule_Name rl) (set (rule_names (rules r)))
              \<and> Size r' = (if rule_Name rl \<in> set (rule_names (rules r)) then Size r else Size r + 1)
              \<and> {cr \<in> set (rules r'). rule_Name (cr_Rule cr) \<noteq> rule_Name rl}
                  = {cr \<in> set (rules r). rule_Name (cr_Rule cr) \<noteq> rule_Name rl}"
    by blast
  from 1 2 3 overwrite_example[of L] show ?thesis by blast
qed

theorem Registry_names_unique_and_sorted_witness:
  "reachable demo_library (registry_of demo_library [example_rule ''r1'' 10 True None ActionBlock []])
   \<and> fst (Add demo_library NewPatternCache
        (registry_of demo_library [example_rule ''r1'' 10 True None ActionBlock []])
        (Some (example_rule ''r1'' 5 True None ActionWarn []))) = None
   \<and> distinct (rule_names (rules (registry_of demo_library
        [example_rule ''r1'' 10 True None ActionBlock []])))
   \<and> sorted_wrt rule_before (rules (registry_of demo_library
        [example_rule ''r1'' 10 True None ActionBlock []]))
   \<and> (\<exists>m. Get_rule (snd (snd (Add demo_library NewPatternCache
        (registry_of demo_library [example_rule ''r1'' 10 True None ActionBlock []])
        (Some (example_rule ''r1'' 5 True None ActionWarn []))))) ''r1''
          = Some \<lparr>cr_Rule = example_rule ''r1'' 5 True None ActionWarn [], cr_Matcher = m\<rparr>)
   \<and> Size (snd (snd (Add demo_library NewPatternCache
        (registry_of demo_library [example_rule ''r1'' 10 True None ActionBlock []])
        (Some (example_rule ''r1'' 5 True None ActionWarn []))))) = 1
   \<and> rules (snd (snd (Add demo_library NewPatternCache
        (registry_of demo_library [example_rule ''r1'' 10 True None ActionBlock []])
        (Some (example_rule ''r1'' 5 True None ActionWarn [])))))
       = [\<lparr>cr_Rule = example_rule ''r1'' 5 True None ActionWarn [], cr_Matcher = AlwaysMatcher\<rparr>]"
proof -
  let ?r0 = "registry_of demo_library [example_rule ''r1'' 10 True None ActionBlock []]"
  let ?rl = "example_rule ''r1'' 5 True None ActionWarn []"
  let ?res = "Add demo_library NewPatternCache ?r0 (Some ?rl)"
  have h: "reachable demo_library ?r0" by (rule registry_of_reachable)
  have a: "fst ?res = None" by code_simp
  then have add: "?res = (None, fst (snd ?res), snd (snd ?res))" by (metis prod.collapse)
  have n: "rule_Name ?rl = ''r1''" by (simp add: example_rule_def)
  have names: "rule_names (rules ?r0) = [''r1'']" by code_simp
  have sz: "Size ?r0 = 1" by code_simp
  have rs: "rules (snd (snd ?res)) = [\<lparr>cr_Rule = ?rl, cr_Matcher = AlwaysMatcher\<rparr>]" by code_simp
  from Registry_names_unique_and_sorted[OF h, of NewPatternCache ?rl "fst (snd ?res)" "snd (snd ?res)"] add
  have "distinct (rule_names (rules ?r0))" "sorted_wrt rule_before (rules ?r0)"
    "\<exists>m. Get_rule (snd (snd ?res)) (rule_Name ?rl) = Some \<lparr>cr_Rule = ?rl, cr_Matcher = m\<rparr>"
    "Size (snd (snd ?res)) = (if rule_Name ?rl \<in> set (rule_names (rules ?r0)) then Size ?r0 else Size ?r0 + 1)"
    by blast+
  with h a rs show ?thesis unfolding n names sz by simp
qed

subsection \<open>Evaluation\<close>

lemma GetEnabled_loop_filter:
  "GetEnabled_loop rs result = result @ filter (\<lambda>cr. rule_Enabled (cr_Rule cr)) rs"
  by (induction rs arbitrary: result) auto

lemma GetEnabled_filter: "GetEnabled r = filter (\<lambda>cr. rule_Enabled (cr_Rule cr)) (rules r)"
  by (simp add: GetEnabled_def GetEnabled_loop_filter)

lemma registry_inv_filter: "registry_inv rs \<Longrightarrow> registry_inv (filter P rs)"
  by (auto simp: registry_inv_def rule_names_def distinct_map_filter sorted_wrt_filter)

lemma matched_result_ok:
  "rule_ok cr \<Longrightarrow>
   \<exists>a. rule_Action (cr_Rule cr) = Some a
     \<and> matched_result cr =
         Inr \<lparr>res_Matched = True, res_Rule = Some (cr_Rule cr), res_Action = ra_Type a,
              res_Message = ra_Message a, res_Reference = ra_Reference a\<rparr>"
  by (auto simp: rule_ok_def matched_result_def)

lemma Evaluate_loop_first_match:
  "(\<exists>pre cr post. rs = pre @ cr # post
       \<and> (\<forall>x\<in>set pre. Match L (cr_Matcher x) (Some c) = Inr False)
       \<and> Match L (cr_Matcher cr) (Some c) = Inr True
       \<and> Evaluate_loop L rs (Some c) d = matched_result cr)
   \<or> ((\<forall>x\<in>set rs. Match L (cr_Matcher x) (Some c) = Inr False)
       \<and> Evaluate_loop L rs (Some c) d = Inr (unmatched_result d))"
proof (induction rs)
  case Nil
  show ?case by simp
next
  case (Cons r rs)
  obtain b where b: "Match L (cr_Matcher r) (Some c) = Inr b"
    using Match_Some_total by blast
  show ?case
  proof (cases b)
    case True
    with b have "r # rs = [] @ r # rs \<and> (\<forall>x\<in>set []. Match L (cr_Matcher x) (Some c) = Inr False)
      \<and> Match L (cr_Matcher r) (Some c) = Inr True
      \<and> Evaluate_loop L (r # rs) (Some c) d = matched_result r" by simp
    then show ?thesis by blast
  next
    case False
    with b have step: "Evaluate_loop L (r # rs) (Some c) d = Evaluate_loop L rs (Some c) d"
      and rf: "Match L (cr_Matcher r) (Some c) = Inr False" by simp_all
    from Cons.IH show ?thesis
    proof
      assume "\<exists>pre cr post. rs = pre @ cr # post
       \<and> (\<forall>x\<in>set pre. Match L (cr_Matcher x) (Some c) = Inr False)
       \<and> Match L (cr_Matcher cr) (Some c) = Inr True
       \<and> Evaluate_loop L rs (Some c) d = matched_result cr"
      then obtain pre cr post where p: "rs = pre @ cr # post"
        "\<forall>x\<in>set pre. Match L (cr_Matcher x) (Some c) = Inr False"
        "Match L (cr_Matcher cr) (Some c) = Inr True"
        "Evaluate_loop L rs (Some c) d = matched_result cr" by blast
      with step rf have "r # rs = (r # pre) @ cr # post
       \<and> (\<forall>x\<in>set (r # pre). Match L (cr_Matcher x) (Some c) = Inr False)
       \<and> Match L (cr_Matcher cr) (Some c) = Inr True
       \<and> Evaluate_loop L (r # rs) (Some c) d = matched_result cr" by simp
      then show ?thesis by blast
    next
      assume "(\<forall>x\<in>set rs. Match L (cr_Matcher x) (Some c) = Inr False)
       \<and> Evaluate_loop L rs (Some c) d = Inr (unmatched_result d)"
      with step rf show ?thesis by simp
    qed
  qed
qed

lemma Evaluate_Some_registry:
  "Evaluate L (e\<lparr>ev_registry := Some r\<rparr>) ctx = Evaluate_loop L (GetEnabled r) ctx (ev_defaultAction e)"
  by (cases "GetEnabled r") (simp_all add: Evaluate_def Let_def)

text \<open>
  C1. On a registry built by the registry's operations and a context that is there,
  \<open>Evaluate\<close> returns a result and never panics: the enabled rules, which are the stored
  rules with the flag set in the registry's order (descending priority, then ascending
  name), are tried in that order; the result carries the rule, action, message and
  reference of the first one whose matcher matches, with \<open>matched\<close> true; when none
  matches, and when the registry is absent or empty, the result has \<open>matched\<close> false and
  the evaluator's default action.
\<close>

theorem Evaluate_first_match:
  assumes "reachable L r"
  shows "((\<exists>pre cr post a. GetEnabled r = pre @ cr # post
            \<and> (\<forall>x\<in>set pre. Match L (cr_Matcher x) (Some c) = Inr False)
            \<and> Match L (cr_Matcher cr) (Some c) = Inr True
            \<and> rule_Action (cr_Rule cr) = Some a
            \<and> Evaluate L (e\<lparr>ev_registry := Some r\<rparr>) (Some c) =
                Inr \<lparr>res_Matched = True, res_Rule = Some (cr_Rule cr), res_Action = ra_Type a,
                     res_Message = ra_Message a, res_Reference = ra_Reference a\<rparr>)
          \<or> ((\<forall>x\<in>set (GetEnabled r). Match L (cr_Matcher x) (Some c) = Inr False)
             \<and> Evaluate L (e\<lparr>ev_registry := Some r\<rparr>) (Some c) =
                 Inr \<lparr>res_Matched = False, res_Rule = None, res_Action = ev_defaultAction e,
                      res_Message = [], res_Reference = []\<rparr>))
         \<and> GetEnabled r = filter (\<lambda>cr. rule_Enabled (cr_Rule cr)) (rules r)
         \<and> sorted_wrt rule_before (GetEnabled r)
         \<and> Evaluate L (e\<lparr>ev_registry := None\<rparr>) ctx =
             Inr \<lparr>res_Matched = False, res_Rule = None, res_Action = ev_defaultAction e,
                  res_Message = [], res_Reference = []\<rparr>
         \<and> Evaluate L (e\<lparr>ev_registry := Some NewRegistry\<rparr>) ctx =
             Inr \<lparr>res_Matched = False, res_Rule = None, res_Action = ev_defaultAction e,
                  res_Message = [], res_Reference = []\<rparr>"
proof -
  from assms have inv: "registry_inv (rules r)" by (rule reachable_inv)
  then have inv': "registry_inv (GetEnabled r)" unfolding GetEnabled_filter by (rule registry_inv_filter)
  have nil: "Evaluate L (e\<lparr>ev_registry := None\<rparr>) ctx =
             Inr \<lparr>res_Matched = False, res_Rule = None, res_Action = ev_defaultAction e,
                  res_Message = [], res_Reference = []\<rparr>"
    by (simp add: Evaluate_def unmatched_result_def)
  have empty: "Evaluate L (e\<lparr>ev_registry := Some NewRegistry\<rparr>) ctx =
             Inr \<lparr>res_Matched = False, res_Rule = None, res_Action = ev_defaultAction e,
                  res_Message = [], res_Reference = []\<rparr>"
    by (simp add: Evaluate_def unmatched_result_def NewRegistry_def GetEnabled_def)
  have sorted: "sorted_wrt rule_before (GetEnabled r)" using inv' by (simp add: registry_inv_def)
  have main: "(\<exists>pre cr post a. GetEnabled r = pre @ cr # post
            \<and> (\<forall>x\<in>set pre. Match L (cr_Matcher x) (Some c) = Inr False)
            \<and> Match L (cr_Matcher cr) (Some c) = Inr True
            \<and> rule_Action (cr_Rule cr) = Some a
            \<and> Evaluate L (e\<lparr>ev_registry := Some r\<rparr>) (Some c) =
                Inr \<lparr>res_Matched = True, res_Rule = Some (cr_Rule cr), res_Action = ra_Type a,
                     res_Message = ra_Message a, res_Reference = ra_Reference a\<rparr>)
          \<or> ((\<forall>x\<in>set (GetEnabled r). Match L (cr_Matcher x) (Some c) = Inr False)
             \<and> Evaluate L (e\<lparr>ev_registry := Some r\<rparr>) (Some c) =
                 Inr \<lparr>res_Matched = False, res_Rule = None, res_Action = ev_defaultAction e,
                      res_Message = [], res_Reference = []\<rparr>)"
    using Evaluate_loop_first_match[of "GetEnabled r" L c "ev_defaultAction e"]
  proof
    assume "\<exists>pre cr post. GetEnabled r = pre @ cr # post
       \<and> (\<forall>x\<in>set pre. Match L (cr_Matcher x) (Some c) = Inr False)
       \<and> Match L (cr_Matcher cr) (Some c) = Inr True
       \<and> Evaluate_loop L (GetEnabled r) (Some c) (ev_defaultAction e) = matched_result cr"
    then obtain pre cr post where p: "GetEnabled r = pre @ cr # post"
        "\<forall>x\<in>set pre. Match L (cr_Matcher x) (Some c) = Inr False"
        "Match L (cr_Matcher cr) (Some c) = Inr True"
        "Evaluate_loop L (GetEnabled r) (Some c) (ev_defaultAction e) = matched_result cr" by blast
    from p(1) inv' have "rule_ok cr" by (simp add: registry_inv_def)
    from matched_result_ok[OF this] obtain a where
      "rule_Action (cr_Rule cr) = Some a"
      "matched_result cr =
         Inr \<lparr>res_Matched = True, res_Rule = Some (cr_Rule cr), res_Action = ra_Type a,
              res_Message = ra_Message a, res_Reference = ra_Reference a\<rparr>" by blast
    with p show ?thesis unfolding Evaluate_Some_registry
      by (intro disjI1 exI[of _ pre] exI[of _ cr] exI[of _ post] exI[of _ a]) simp
  next
    assume "(\<forall>x\<in>set (GetEnabled r). Match L (cr_Matcher x) (Some c) = Inr False)
       \<and> Evaluate_loop L (GetEnabled r) (Some c) (ev_defaultAction e) = Inr (unmatched_result (ev_defaultAction e))"
    then show ?thesis unfolding Evaluate_Some_registry by (simp add: unmatched_result_def)
  qed
  from main sorted nil empty GetEnabled_filter[of r] show ?thesis by blast
qed

theorem Evaluate_first_match_witness:
  "reachable demo_library (registry_of demo_library [rule_R2, rule_R1])
   \<and> ((\<exists>pre cr post a. GetEnabled (registry_of demo_library [rule_R2, rule_R1]) = pre @ cr # post
            \<and> (\<forall>x\<in>set pre. Match demo_library (cr_Matcher x) (Some (remote_context ''upstream'')) = Inr False)
            \<and> Match demo_library (cr_Matcher cr) (Some (remote_context ''upstream'')) = Inr True
            \<and> rule_Action (cr_Rule cr) = Some a
            \<and> Evaluate demo_library (NewEvaluator (Some (registry_of demo_library [rule_R2, rule_R1])) [])
                  (Some (remote_context ''upstream'')) =
                Inr \<lparr>res_Matched = True, res_Rule = Some (cr_Rule cr), res_Action = ra_Type a,
                     res_Message = ra_Message a, res_Reference = ra_Reference a\<rparr>)
        \<or> ((\<forall>x\<in>set (GetEnabled (registry_of demo_library [rule_R2, rule_R1])).
               Match demo_library (cr_Matcher x) (Some (remote_context ''upstream'')) = Inr False)
            \<and> Evaluate demo_library (NewEvaluator (Some (registry_of demo_library [rule_R2, rule_R1])) [])
                  (Some (remote_context ''upstream'')) =
                 Inr \<lparr>res_Matched = False, res_Rule = None, res_Action = ActionAllow,
                      res_Message = [], res_Reference = []\<rparr>))
   \<and> Evaluate demo_library (NewEvaluator (Some (registry_of demo_library [rule_R2, rule_R1])) [])
        (Some (remote_context ''origin'')) =
       Inr \<lparr>res_Matched = True, res_Rule = Some rule_R1, res_Action = ActionBlock,
            res_Message = ''no origin push'', res_Reference = []\<rparr>
   \<and> Evaluate demo_library (NewEvaluator (Some (registry_of demo_library [rule_R2, rule_R1])) [])
        (Some (remote_context ''upstream'')) =
       Inr \<lparr>res_Matched = True, res_Rule = Some rule_R2, res_Action = ActionAllow,
            res_Message = [], res_Reference = []\<rparr>
   \<and> Evaluate demo_library (NewEvaluator (Some NewRegistry) [WithDefaultAction ActionWarn])
        (Some (remote_context ''origin'')) =
       Inr \<lparr>res_Matched = False, res_Rule = None, res_Action = ActionWarn,
            res_Message = [], res_Reference = []\<rparr>"
proof -
  let ?r = "registry_of demo_library [rule_R2, rule_R1]"
  have h: "reachable demo_library ?r" by (rule registry_of_reachable)
  have e: "NewEvaluator (Some ?r) [] = (NewEvaluator None [])\<lparr>ev_registry := Some ?r\<rparr>"
    by (simp add: NewEvaluator_def)
  have d: "ev_defaultAction (NewEvaluator None []) = ActionAllow"
    by (simp add: NewEvaluator_def)
  have 1: "Evaluate demo_library (NewEvaluator (Some ?r) []) (Some (remote_context ''origin'')) =
       Inr \<lparr>res_Matched = True, res_Rule = Some rule_R1, res_Action = ActionBlock,
            res_Message = ''no origin push'', res_Reference = []\<rparr>"
    by code_simp
  have 2: "Evaluate demo_library (NewEvaluator (Some ?r) []) (Some (remote_context ''upstream'')) =
       Inr \<lparr>res_Matched = True, res_Rule = Some rule_R2, res_Action = ActionAllow,
            res_Message = [], res_Reference = []\<rparr>"
    by code_simp
  have 3: "Evaluate demo_library (NewEvaluator (Some NewRegistry) [WithDefaultAction ActionWarn])
        (Some (remote_context ''origin'')) =
       Inr \<lparr>res_Matched = False, res_Rule = None, res_Action = ActionWarn,
            res_Message = [], res_Reference = []\<rparr>"
    by code_simp
  from Evaluate_first_match[OF h, of "remote_context ''upstream''" "NewEvaluator None []"] h 1 2 3
  show ?thesis unfolding e d by blast
qed

text \<open>\<open>Evaluate\<close> reads the registry and the default action of the evaluator, nothing else.\<close>

lemma EvaluateAll_loop_first:
  "EvaluateAll_loop L rs ctx acc = Inr ys \<Longrightarrow>
   \<exists>zs. ys = acc @ zs \<and> (case zs of [] \<Rightarrow> True | z # _ \<Rightarrow> Evaluate_loop L rs ctx d = Inr z)"
proof (induction rs arbitrary: acc)
  case Nil
  then show ?case by simp
next
  case (Cons r rs)
  from Cons.prems obtain b where b: "Match L (cr_Matcher r) ctx = Inr b"
    by (cases "Match L (cr_Matcher r) ctx") auto
  show ?case
  proof (cases b)
    case True
    with b Cons.prems obtain res where res: "matched_result r = Inr res"
      by (cases "matched_result r") auto
    with True b Cons.prems have "EvaluateAll_loop L rs ctx (acc @ [res]) = Inr ys" by simp
    from Cons.IH[OF this] obtain zs where "ys = (acc @ [res]) @ zs" by blast
    then have "ys = acc @ (res # zs)" by simp
    moreover from True b res have "Evaluate_loop L (r # rs) ctx d = Inr res" by simp
    ultimately show ?thesis by (intro exI[of _ "res # zs"]) simp
  next
    case False
    with b Cons.prems have "EvaluateAll_loop L rs ctx acc = Inr ys" by simp
    from Cons.IH[OF this] obtain zs where zs: "ys = acc @ zs"
      "case zs of [] \<Rightarrow> True | z # _ \<Rightarrow> Evaluate_loop L rs ctx d = Inr z" by blast
    from False b have "Evaluate_loop L (r # rs) ctx d = Evaluate_loop L rs ctx d" by simp
    with zs show ?thesis
      by (intro exI[of _ zs]) (simp split: list.splits del: Evaluate_loop.simps)
  qed
qed

lemma Evaluate_reads_registry_and_default:
  assumes "ev_registry e = ev_registry e'" and "ev_defaultAction e = ev_defaultAction e'"
  shows "Evaluate L e ctx = Evaluate L e' ctx"
  using assms by (cases "ev_registry e'") (simp_all add: Evaluate_def Let_def)

text \<open>
  C9. \<open>Evaluate\<close> returns the same result whatever the flag \<open>stopOnFirstMatch\<close> is, set in
  the evaluator or by the option \<open>WithStopOnFirstMatch\<close>; and when \<open>EvaluateAll\<close> returns a
  list that is not empty, \<open>Evaluate\<close> returns its first element.
\<close>

theorem Evaluate_ignores_stopOnFirstMatch:
  "Evaluate L (e\<lparr>ev_stopOnFirstMatch := False\<rparr>) ctx = Evaluate L (e\<lparr>ev_stopOnFirstMatch := True\<rparr>) ctx
   \<and> Evaluate L (NewEvaluator registry [WithStopOnFirstMatch False]) ctx
       = Evaluate L (NewEvaluator registry [WithStopOnFirstMatch True]) ctx
   \<and> Evaluate L (NewEvaluator registry [WithStopOnFirstMatch False]) ctx
       = Evaluate L (NewEvaluator registry []) ctx
   \<and> (EvaluateAll L e ctx = Inr (x # xs) \<longrightarrow> Evaluate L e ctx = Inr x)"
proof -
  have 1: "Evaluate L (e\<lparr>ev_stopOnFirstMatch := False\<rparr>) ctx = Evaluate L (e\<lparr>ev_stopOnFirstMatch := True\<rparr>) ctx"
    by (rule Evaluate_reads_registry_and_default) simp_all
  have 2: "Evaluate L (NewEvaluator registry [WithStopOnFirstMatch False]) ctx
       = Evaluate L (NewEvaluator registry [WithStopOnFirstMatch True]) ctx"
    by (rule Evaluate_reads_registry_and_default)
      (simp_all add: NewEvaluator_def WithStopOnFirstMatch_def)
  have 3: "Evaluate L (NewEvaluator registry [WithStopOnFirstMatch False]) ctx
       = Evaluate L (NewEvaluator registry []) ctx"
    by (rule Evaluate_reads_registry_and_default)
      (simp_all add: NewEvaluator_def WithStopOnFirstMatch_def)
  have 4: "EvaluateAll L e ctx = Inr (x # xs) \<longrightarrow> Evaluate L e ctx = Inr x"
  proof
    assume a: "EvaluateAll L e ctx = Inr (x # xs)"
    then obtain r where r: "ev_registry e = Some r" by (cases "ev_registry e") (auto simp: EvaluateAll_def)
    with a have ne: "GetEnabled r \<noteq> []" by (auto simp: EvaluateAll_def Let_def split: if_splits)
    with a r have "EvaluateAll_loop L (GetEnabled r) ctx [] = Inr (x # xs)"
      by (simp add: EvaluateAll_def Let_def)
    from EvaluateAll_loop_first[OF this, of "ev_defaultAction e"]
    have "Evaluate_loop L (GetEnabled r) ctx (ev_defaultAction e) = Inr x" by auto
    with r ne show "Evaluate L e ctx = Inr x" by (simp add: Evaluate_def Let_def)
  qed
  from 1 2 3 4 show ?thesis by blast
qed

theorem Evaluate_ignores_stopOnFirstMatch_witness:
  "EvaluateAll demo_library (NewEvaluator (Some (registry_of demo_library [rule_R2, rule_R1]))
       [WithStopOnFirstMatch False]) (Some (remote_context ''origin'')) =
     Inr [\<lparr>res_Matched = True, res_Rule = Some rule_R1, res_Action = ActionBlock,
           res_Message = ''no origin push'', res_Reference = []\<rparr>,
          \<lparr>res_Matched = True, res_Rule = Some rule_R2, res_Action = ActionAllow,
           res_Message = [], res_Reference = []\<rparr>]
   \<and> Evaluate demo_library (NewEvaluator (Some (registry_of demo_library [rule_R2, rule_R1]))
       [WithStopOnFirstMatch False]) (Some (remote_context ''origin'')) =
     Inr \<lparr>res_Matched = True, res_Rule = Some rule_R1, res_Action = ActionBlock,
          res_Message = ''no origin push'', res_Reference = []\<rparr>"
proof -
  let ?e = "NewEvaluator (Some (registry_of demo_library [rule_R2, rule_R1])) [WithStopOnFirstMatch False]"
  have a: "EvaluateAll demo_library ?e (Some (remote_context ''origin'')) =
     Inr [\<lparr>res_Matched = True, res_Rule = Some rule_R1, res_Action = ActionBlock,
           res_Message = ''no origin push'', res_Reference = []\<rparr>,
          \<lparr>res_Matched = True, res_Rule = Some rule_R2, res_Action = ActionAllow,
           res_Message = [], res_Reference = []\<rparr>]"
    by code_simp
  with Evaluate_ignores_stopOnFirstMatch[of demo_library ?e "Some (remote_context ''origin'')"]
  show ?thesis by blast
qed

subsection \<open>Filtering by validator type\<close>

lemma FilterByValidator_loop_filter:
  "FilterByValidator_loop L rs (Some c) filtered =
     Inr (filtered @ filter (\<lambda>cr. case rule_Match (cr_Rule cr) of
                                 None \<Rightarrow> True
                               | Some m \<Rightarrow> rm_ValidatorType m = []
                                   \<or> Match L (ValidatorTypeMatcher (rm_ValidatorType m)) (Some c) = Inr True) rs)"
proof (induction rs arbitrary: filtered)
  case Nil
  show ?case by simp
next
  case (Cons r rs)
  show ?case
  proof (cases "rule_Match (cr_Rule r)")
    case None
    then show ?thesis by (simp add: Cons.IH)
  next
    case (Some m)
    obtain b where "Match L (ValidatorTypeMatcher (rm_ValidatorType m)) (Some c) = Inr b"
      using Match_Some_total by blast
    with Some show ?thesis by (cases b) (auto simp add: Cons.IH ValidatorAll_def)
  qed
qed

lemma ValidatorTypeMatcher_reads_validator_type:
  "Match L (ValidatorTypeMatcher vt) (Some c) =
     Inr (vt = ValidatorAll \<or> ValidatorType_match vt (mc_ValidatorType c))"
  by simp

text \<open>
  C8, as the claim states it, fails: a registry whose only rule is disabled and has no
  match block holds a rule whose validator-type condition is absent, and
  \<open>FilterByValidator\<close> does not return it.
\<close>

theorem FilterByValidator_skips_disabled_rule:
  "rules (registry_of demo_library [rule_disabled]) =
     [\<lparr>cr_Rule = rule_disabled, cr_Matcher = AlwaysMatcher\<rparr>]
   \<and> rule_Match rule_disabled = None
   \<and> FilterByValidator demo_library (NewEvaluator (Some (registry_of demo_library [rule_disabled])) [])
        ''git.push'' = Inr []"
  by code_simp

text \<open>
  C8, amended. \<open>FilterByValidator\<close> returns, in the registry's order, exactly the enabled
  rules whose validator-type condition is absent (no match block, or an empty
  validator-type field) or matches the given validator type under the validator-type
  matcher, on whatever context carries that validator type. Without a registry it returns
  no rule.
\<close>

theorem FilterByValidator_enabled_rules:
  "FilterByValidator L (e\<lparr>ev_registry := Some r\<rparr>) v =
     Inr (filter (\<lambda>cr. rule_Enabled (cr_Rule cr)
                    \<and> (case rule_Match (cr_Rule cr) of
                          None \<Rightarrow> True
                        | Some m \<Rightarrow> rm_ValidatorType m = []
                            \<or> Match L (ValidatorTypeMatcher (rm_ValidatorType m))
                                 (Some (c\<lparr>mc_ValidatorType := v\<rparr>)) = Inr True))
            (rules r))
   \<and> FilterByValidator L (e\<lparr>ev_registry := None\<rparr>) v = Inr []"
proof -
  let ?ctx = "\<lparr>mc_ValidatorType = v, mc_GitContext = None,
                         mc_FileContext = None, mc_Command = [], mc_HookContext = None\<rparr>"
  have same: "\<And>vt. Match L (ValidatorTypeMatcher vt) (Some ?ctx)
      = Match L (ValidatorTypeMatcher vt) (Some (c\<lparr>mc_ValidatorType := v\<rparr>))"
    by simp
  have "FilterByValidator L (e\<lparr>ev_registry := Some r\<rparr>) v =
      FilterByValidator_loop L (GetEnabled r) (Some ?ctx) []"
    by (cases "GetEnabled r") (simp_all add: FilterByValidator_def Let_def)
  then have 1: "FilterByValidator L (e\<lparr>ev_registry := Some r\<rparr>) v =
     Inr (filter (\<lambda>cr. rule_Enabled (cr_Rule cr)
                    \<and> (case rule_Match (cr_Rule cr) of
                          None \<Rightarrow> True
                        | Some m \<Rightarrow> rm_ValidatorType m = []
                            \<or> Match L (ValidatorTypeMatcher (rm_ValidatorType m))
                                 (Some (c\<lparr>mc_ValidatorType := v\<rparr>)) = Inr True))
            (rules r))"
    unfolding FilterByValidator_loop_filter GetEnabled_filter same
    by (simp add: conj_commute)
  have 2: "FilterByValidator L (e\<lparr>ev_registry := None\<rparr>) v = Inr []"
    by (simp add: FilterByValidator_def)
  from 1 2 show ?thesis by blast
qed

text \<open>
  For the validator type \<open>git.push\<close>, a rule without a validator-type condition and a rule
  for \<open>git.*\<close> are returned and a rule for \<open>file.markdown\<close> is not.
\<close>

lemma FilterByValidator_example:
  "FilterByValidator demo_library
     (NewEvaluator (Some (registry_of demo_library
        [rule_markdown_validator, rule_git_validators, rule_any_validator])) []) ''git.push''
   = Inr [\<lparr>cr_Rule = rule_any_validator, cr_Matcher = AlwaysMatcher\<rparr>,
          \<lparr>cr_Rule = rule_git_validators, cr_Matcher = ValidatorTypeMatcher ''git.*''\<rparr>]"
  by code_simp

end
